theory Spec2Isabelle
  imports Main "HOL-Library.AList"
begin

section \<open>Values exchanged with the remote service\<close>

text \<open>
  The client (\<^verbatim>\<open>cursor-api.mjs\<close>) hands around whatever \<^verbatim>\<open>JSON.parse\<close> produced.
  A parsed value is modelled by the datatype below; an object is its list of
  properties. Numbers are restricted to integers: the code only ever tests a number
  for truthiness or prints it.
\<close>

datatype json =
    JNull
  | JBool bool
  | JNum int
  | JStr string
  | JArr "json list"
  | JObj "(string \<times> json) list"

text \<open>JavaScript truthiness, as used by \<^verbatim>\<open>||\<close> and \<^verbatim>\<open>if\<close>.\<close>

fun truthy :: "json \<Rightarrow> bool" where
  "truthy JNull = False"
| "truthy (JBool b) = b"
| "truthy (JNum n) = (n \<noteq> 0)"
| "truthy (JStr s) = (s \<noteq> [])"
| "truthy (JArr xs) = True"
| "truthy (JObj ps) = True"

datatype error =
    TypeError
  | NetworkError string
  | HttpError string int json
  | ValidationError string
  | PollTimeout string int string

text \<open>
  Property access \<^verbatim>\<open>v.name\<close>: it throws a \<^verbatim>\<open>TypeError\<close> on \<^verbatim>\<open>null\<close>, reads the
  property of an object (\<open>None\<close> stands for \<^verbatim>\<open>undefined\<close>) and is \<^verbatim>\<open>undefined\<close> on
  every other parsed value.
\<close>

fun get_prop :: "json \<Rightarrow> string \<Rightarrow> error + json option" where
  "get_prop JNull name = Inl TypeError"
| "get_prop (JObj ps) name = Inr (map_of ps name)"
| "get_prop v name = Inr None"

text \<open>
  String conversion, as \<^verbatim>\<open>new Error(msg)\<close> and a template literal perform it. A string
  is itself and a number always has a text, given by the parameter \<open>num\<close>. The
  conversion of any other value is the parameter \<open>str\<close>; it can throw: an object that
  carries a \<^verbatim>\<open>toString\<close> property of its own makes it throw a \<^verbatim>\<open>TypeError\<close>.
\<close>

fun ToString :: "(int \<Rightarrow> string) \<Rightarrow> (json \<Rightarrow> error + string) \<Rightarrow> json \<Rightarrow> error + string" where
  "ToString num str (JStr s) = Inr s"
| "ToString num str (JNum n) = Inr (num n)"
| "ToString num str v = str v"

section \<open>Polling\<close>

definition TERMINAL_STATUSES :: "string list" where
  "TERMINAL_STATUSES = [''FINISHED'', ''STOPPED'', ''FAILED'']"

text \<open>\<^verbatim>\<open>TERMINAL_STATUSES.has(x)\<close>: only a string can be a member of the set.\<close>

fun TERMINAL_STATUSES_has :: "json option \<Rightarrow> bool" where
  "TERMINAL_STATUSES_has (Some (JStr s)) = (s \<in> set TERMINAL_STATUSES)"
| "TERMINAL_STATUSES_has x = False"

text \<open>
  The outcome of one \<^verbatim>\<open>getAgent\<close> call, as \<^verbatim>\<open>Promise.allSettled\<close> reports it, and the
  environment of a polling session: \<open>clock env k\<close> is what the \<open>k\<close>-th call of
  \<^verbatim>\<open>Date.now()\<close> returns, \<open>getAgent env n id\<close> how the \<open>n\<close>-th call of \<^verbatim>\<open>getAgent\<close>
  of the session settles when it asks for \<open>id\<close>.
\<close>

datatype outcome = Fulfilled json | Rejected error

record env =
  clock :: "nat \<Rightarrow> int"
  getAgent :: "nat \<Rightarrow> string \<Rightarrow> outcome"

text \<open>
  What a session does, in order: a fetch that settled, a \<^verbatim>\<open>results.set\<close>, a
  \<^verbatim>\<open>sleep\<close>.
\<close>

datatype event =
    Fetched string outcome
  | Resolved string json
  | Slept int

record poll_state =
  reads :: nat
  fetches :: nat
  results :: "(string \<times> json) list"
  trace :: "event list"

definition has :: "(string \<times> json) list \<Rightarrow> string \<Rightarrow> bool" where
  "has rs k = (map_of rs k \<noteq> None)"

definition set_result :: "poll_state \<Rightarrow> string \<Rightarrow> json \<Rightarrow> poll_state" where
  "set_result st k v =
     st\<lparr>results := AList.update k v (results st), trace := trace st @ [Resolved k v]\<rparr>"

text \<open>\<^verbatim>\<open>Promise.allSettled(pending.map((id) => getAgent(apiKey, id)))\<close>\<close>

fun allSettled :: "env \<Rightarrow> nat \<Rightarrow> string list \<Rightarrow> outcome list" where
  "allSettled e n [] = []"
| "allSettled e n (k # ks) = getAgent e n k # allSettled e (Suc n) ks"

definition fetchAll :: "env \<Rightarrow> string list \<Rightarrow> poll_state \<Rightarrow> outcome list \<times> poll_state" where
  "fetchAll e ks st =
     (let checks = allSettled e (fetches st) ks
      in (checks, st\<lparr>fetches := fetches st + length ks,
                      trace := trace st @ map2 Fetched ks checks\<rparr>))"

text \<open>
  The \<^verbatim>\<open>for\<close> loop of a tick: a fulfilled check whose status is terminal is stored.
  Reading \<^verbatim>\<open>agent.status\<close> of \<^verbatim>\<open>null\<close> throws; the result is the error thrown, if
  any, with the state reached by then.
\<close>

fun recordTerminal ::
  "string list \<Rightarrow> outcome list \<Rightarrow> poll_state \<Rightarrow> error option \<times> poll_state"
where
  "recordTerminal [] cs st = (None, st)"
| "recordTerminal (k # ks) [] st = (Some TypeError, st)"
| "recordTerminal (k # ks) (Rejected err # cs) st = recordTerminal ks cs st"
| "recordTerminal (k # ks) (Fulfilled agent # cs) st =
     (case get_prop agent ''status'' of
        Inl err \<Rightarrow> (Some err, st)
      | Inr s \<Rightarrow>
          if TERMINAL_STATUSES_has s then recordTerminal ks cs (set_result st k agent)
          else recordTerminal ks cs st)"

text \<open>The \<^verbatim>\<open>for\<close> loop of the final sweep: every fulfilled check is stored.\<close>

fun recordFulfilled ::
  "string list \<Rightarrow> outcome list \<Rightarrow> poll_state \<Rightarrow> error option \<times> poll_state"
where
  "recordFulfilled [] cs st = (None, st)"
| "recordFulfilled (k # ks) [] st = (Some TypeError, st)"
| "recordFulfilled (k # ks) (Rejected err # cs) st = recordFulfilled ks cs st"
| "recordFulfilled (k # ks) (Fulfilled agent # cs) st =
     recordFulfilled ks cs (set_result st k agent)"

text \<open>\<^verbatim>\<open>ids.filter((id) => !results.has(id))\<close>\<close>

definition unresolved :: "string list \<Rightarrow> (string \<times> json) list \<Rightarrow> string list" where
  "unresolved ids rs = filter (\<lambda>k. \<not> has rs k) ids"

definition sleep :: "int \<Rightarrow> poll_state \<Rightarrow> poll_state" where
  "sleep ms st = st\<lparr>trace := trace st @ [Slept ms]\<rparr>"

text \<open>
  The \<^verbatim>\<open>while (Date.now() < deadline)\<close> loop of \<^verbatim>\<open>pollAgents\<close>. The result is
  \<open>None\<close> when the loop runs forever, and otherwise the error thrown (if any) with the
  state reached.
\<close>

partial_function (option) pollLoop ::
  "env \<Rightarrow> int \<Rightarrow> string list \<Rightarrow> int \<Rightarrow> poll_state \<Rightarrow> (error option \<times> poll_state) option"
where
  "pollLoop e deadline ids intervalMs st =
     (if clock e (reads st) < deadline then
        (let st1 = st\<lparr>reads := Suc (reads st)\<rparr>;
             pending = unresolved ids (results st1)
         in if length pending = 0 then Some (None, st1)
            else
              (let checks = fst (fetchAll e pending st1);
                   st2 = snd (fetchAll e pending st1)
               in case recordTerminal pending checks st2 of
                    (Some err, st3) \<Rightarrow> Some (Some err, st3)
                  | (None, st3) \<Rightarrow>
                      if length (results st3) = length ids then Some (None, st3)
                      else pollLoop e deadline ids intervalMs (sleep intervalMs st3)))
      else Some (None, st\<lparr>reads := Suc (reads st)\<rparr>))"

definition placeholder :: "string \<Rightarrow> json" where
  "placeholder k = JObj [(''id'', JStr k), (''status'', JStr ''UNKNOWN'')]"

text \<open>\<^verbatim>\<open>results.get(id) || { id, status: "UNKNOWN" }\<close>\<close>

definition entry :: "(string \<times> json) list \<Rightarrow> string \<Rightarrow> json" where
  "entry rs k =
     (case map_of rs k of
        None \<Rightarrow> placeholder k
      | Some v \<Rightarrow> if truthy v then v else placeholder k)"

definition finalSweep ::
  "env \<Rightarrow> string list \<Rightarrow> poll_state \<Rightarrow> error option \<times> poll_state"
where
  "finalSweep e ids st =
     (let stillPending = unresolved ids (results st)
      in if length stillPending > 0 then
           recordFulfilled stillPending (fst (fetchAll e stillPending st))
             (snd (fetchAll e stillPending st))
         else (None, st))"

definition init_state :: poll_state where
  "init_state = \<lparr>reads = 1, fetches = 0, results = [], trace = []\<rparr>"

text \<open>
  \<^verbatim>\<open>pollAgents(apiKey, ids, intervalMs, timeoutMs)\<close>. The first clock reading fixes
  the deadline. The result pairs what the call returns or throws with what it did.
\<close>

definition pollAgents ::
  "env \<Rightarrow> string list \<Rightarrow> int \<Rightarrow> int \<Rightarrow> ((error + json list) \<times> event list) option"
where
  "pollAgents e ids intervalMs timeoutMs =
     (let deadline = clock e 0 + timeoutMs
      in case pollLoop e deadline ids intervalMs init_state of
           None \<Rightarrow> None
         | Some (Some err, st) \<Rightarrow> Some (Inl err, trace st)
         | Some (None, st) \<Rightarrow>
             (case finalSweep e ids st of
                (Some err, st') \<Rightarrow> Some (Inl err, trace st')
              | (None, st') \<Rightarrow> Some (Inr (map (entry (results st')) ids), trace st')))"

text \<open>
  \<^verbatim>\<open>pollAgent(apiKey, id, intervalMs, timeoutMs)\<close>, the single-job wait. Here
  \<^verbatim>\<open>await getAgent(...)\<close> rethrows a rejection. The loop yields \<open>Inr (Some agent)\<close>
  when it returns from inside, \<open>Inr None\<close> when it is left at the deadline.
\<close>

definition fetchOne :: "env \<Rightarrow> string \<Rightarrow> poll_state \<Rightarrow> outcome \<times> poll_state" where
  "fetchOne e k st =
     (getAgent e (fetches st) k,
      st\<lparr>fetches := Suc (fetches st),
         trace := trace st @ [Fetched k (getAgent e (fetches st) k)]\<rparr>)"

partial_function (option) pollAgentLoop ::
  "env \<Rightarrow> int \<Rightarrow> string \<Rightarrow> int \<Rightarrow> poll_state \<Rightarrow> ((error + json option) \<times> poll_state) option"
where
  "pollAgentLoop e deadline k intervalMs st =
     (if clock e (reads st) < deadline then
        (let st1 = st\<lparr>reads := Suc (reads st)\<rparr>;
             st2 = snd (fetchOne e k st1)
         in case fst (fetchOne e k st1) of
              Rejected err \<Rightarrow> Some (Inl err, st2)
            | Fulfilled agent \<Rightarrow>
                (case get_prop agent ''status'' of
                   Inl err \<Rightarrow> Some (Inl err, st2)
                 | Inr s \<Rightarrow>
                     if TERMINAL_STATUSES_has s then Some (Inr (Some agent), st2)
                     else pollAgentLoop e deadline k intervalMs (sleep intervalMs st2)))
      else Some (Inr None, st\<lparr>reads := Suc (reads st)\<rparr>))"

text \<open>
  The final check. The message of the timeout error is a template literal over the
  ID, \<^verbatim>\<open>timeoutMs / 1000\<close> and \<^verbatim>\<open>agent.status\<close>; the error keeps the ID,
  \<^verbatim>\<open>timeoutMs\<close> and the text of the status. Converting the status can throw; a
  missing status reads \<^verbatim>\<open>undefined\<close>.
\<close>

definition status_text ::
  "(int \<Rightarrow> string) \<Rightarrow> (json \<Rightarrow> error + string) \<Rightarrow> json option \<Rightarrow> error + string"
where
  "status_text num str s = (case s of None \<Rightarrow> Inr ''undefined'' | Some v \<Rightarrow> ToString num str v)"

definition finalCheck ::
  "env \<Rightarrow> (int \<Rightarrow> string) \<Rightarrow> (json \<Rightarrow> error + string) \<Rightarrow> string \<Rightarrow> int \<Rightarrow> poll_state \<Rightarrow>
   (error + json) \<times> event list"
where
  "finalCheck e num str k timeoutMs st =
     (let st' = snd (fetchOne e k st)
      in case fst (fetchOne e k st) of
           Rejected err \<Rightarrow> (Inl err, trace st')
         | Fulfilled agent \<Rightarrow>
             (case get_prop agent ''status'' of
                Inl err \<Rightarrow> (Inl err, trace st')
              | Inr s \<Rightarrow>
                  if TERMINAL_STATUSES_has s then (Inr agent, trace st')
                  else
                    (case status_text num str s of
                       Inl err \<Rightarrow> (Inl err, trace st')
                     | Inr t \<Rightarrow> (Inl (PollTimeout k timeoutMs t), trace st'))))"

definition pollAgent ::
  "env \<Rightarrow> (int \<Rightarrow> string) \<Rightarrow> (json \<Rightarrow> error + string) \<Rightarrow> string \<Rightarrow> int \<Rightarrow> int \<Rightarrow>
   ((error + json) \<times> event list) option"
where
  "pollAgent e num str k intervalMs timeoutMs =
     (let deadline = clock e 0 + timeoutMs
      in case pollAgentLoop e deadline k intervalMs init_state of
           None \<Rightarrow> None
         | Some (Inl err, st) \<Rightarrow> Some (Inl err, trace st)
         | Some (Inr (Some agent), st) \<Rightarrow> Some (Inr agent, trace st)
         | Some (Inr None, st) \<Rightarrow> Some (finalCheck e num str k timeoutMs st))"

section \<open>The HTTP client\<close>

text \<open>
  One call of the platform's \<^verbatim>\<open>fetch\<close>, and how it settles: it rejects (with the
  message of the error), or yields a response, modelled once its body has been read.
  The \<^verbatim>\<open>Authorization\<close> header is a function of the API key, the
  \<^verbatim>\<open>Content-Type\<close> header of whether a body is sent.
\<close>

record http_call =
  call_method :: string
  call_url :: string
  call_key :: string
  call_body :: "json option"

record response =
  status :: int
  body_text :: string

datatype fetch_result = NetFail string | Resp response

definition BASE_URL :: string where
  "BASE_URL = ''https://api.cursor.com''"

text \<open>\<^verbatim>\<open>response.ok\<close> of the Fetch standard.\<close>

definition ok :: "response \<Rightarrow> bool" where
  "ok r = (200 \<le> status r \<and> status r \<le> 299)"

text \<open>\<^verbatim>\<open>data?.name\<close>\<close>

fun opt_prop :: "json \<Rightarrow> string \<Rightarrow> json option" where
  "opt_prop (JObj ps) name = map_of ps name"
| "opt_prop v name = None"

text \<open>\<^verbatim>\<open>a || b\<close>, where \<open>None\<close> is \<^verbatim>\<open>undefined\<close>.\<close>

fun or_else :: "json option \<Rightarrow> json \<Rightarrow> json" where
  "or_else None b = b"
| "or_else (Some a) b = (if truthy a then a else b)"

text \<open>
  \<^verbatim>\<open>data?.message || data?.error || text || `HTTP ${response.status}`\<close>: the text of
  the body is a string, the last phrase a string built from the status.
\<close>

definition extract_message :: "(int \<Rightarrow> string) \<Rightarrow> json \<Rightarrow> response \<Rightarrow> json" where
  "extract_message num data r =
     or_else (opt_prop data ''message'')
       (or_else (opt_prop data ''error'')
         (or_else (Some (JStr (body_text r))) (JStr (''HTTP '' @ num (status r)))))"

text \<open>The message of the error thrown, from the status and the text of \<^verbatim>\<open>msg\<close>.\<close>

definition error_message :: "int \<Rightarrow> string \<Rightarrow> string" where
  "error_message code t =
     (if code = 401 then ''Authentication failed: '' @ t @ ''. Check CURSOR_API_KEY.''
      else if code = 403 then
        ''Forbidden: '' @ t @ ''. Ensure the GitHub App is installed on this repo.''
      else if code = 404 then ''Not found: '' @ t @ ''. Agent may have been deleted.''
      else if code = 429 then ''Rate limit exceeded: '' @ t @ ''. Back off and retry.''
      else t)"

text \<open>
  \<^verbatim>\<open>request(apiKey, method, path, body)\<close>. The platform is four parameters: \<open>net\<close>
  (\<^verbatim>\<open>fetch\<close>), \<open>parse\<close> (\<^verbatim>\<open>JSON.parse\<close>, \<open>None\<close> when it throws), \<open>num\<close> and \<open>str\<close>.
  The result pairs what the call returns or throws with the HTTP calls it issued.
  \<^verbatim>\<open>new Error(msg)\<close> converts \<^verbatim>\<open>msg\<close> to a string, which can throw.
\<close>

definition request ::
  "(http_call \<Rightarrow> fetch_result) \<Rightarrow> (string \<Rightarrow> json option) \<Rightarrow> (int \<Rightarrow> string) \<Rightarrow>
   (json \<Rightarrow> error + string) \<Rightarrow> string \<Rightarrow> string \<Rightarrow> string \<Rightarrow> json option \<Rightarrow>
   (error + json) \<times> http_call list"
where
  "request net parse num str apiKey method path body =
     (let call = \<lparr>call_method = method, call_url = BASE_URL @ path,
                   call_key = apiKey, call_body = body\<rparr>
      in case net call of
           NetFail m \<Rightarrow>
             (Inl (NetworkError (''Network error calling '' @ method @ '' '' @ path @ '': '' @ m)),
              [call])
         | Resp r \<Rightarrow>
             if status r = 204 then (Inr (JObj []), [call])
             else
               (let data = (case parse (body_text r) of None \<Rightarrow> JNull | Some d \<Rightarrow> d)
                in if \<not> ok r then
                     (case ToString num str (extract_message num data r) of
                        Inl err \<Rightarrow> (Inl err, [call])
                      | Inr t \<Rightarrow>
                          (Inl (HttpError (error_message (status r) t) (status r) data), [call]))
                   else (Inr data, [call])))"

text \<open>The parameters of \<^verbatim>\<open>launchAgent\<close>; an absent one is \<open>None\<close>.\<close>

record launch_params =
  promptText :: string
  promptImages :: "json list option"
  repository :: string
  gitRef :: "string option"
  modelName :: "string option"
  autoCreatePr :: "bool option"
  openAsCursorGithubApp :: "bool option"
  skipReviewerRequest :: "bool option"
  branchName :: "string option"
  webhookUrl :: "string option"
  webhookSecret :: "string option"

text \<open>\<^verbatim>\<open>if (params.x)\<close> for an optional string: present and not empty.\<close>

fun given :: "string option \<Rightarrow> bool" where
  "given None = False"
| "given (Some s) = (s \<noteq> [])"

definition flag :: "string \<Rightarrow> bool option \<Rightarrow> (string \<times> json) list" where
  "flag name b = (case b of None \<Rightarrow> [] | Some v \<Rightarrow> [(name, JBool v)])"

definition target_options :: "launch_params \<Rightarrow> (string \<times> json) list" where
  "target_options p =
     flag ''autoCreatePr'' (autoCreatePr p)
     @ flag ''openAsCursorGithubApp'' (openAsCursorGithubApp p)
     @ flag ''skipReviewerRequest'' (skipReviewerRequest p)
     @ (if given (branchName p) then [(''branchName'', JStr (the (branchName p)))] else [])"

text \<open>The webhook block: the property it adds to the body, or the error it throws.\<close>

definition webhook_option :: "launch_params \<Rightarrow> error + (string \<times> json) list" where
  "webhook_option p =
     (if given (webhookUrl p) then
        (if given (webhookSecret p) then
           (if length (the (webhookSecret p)) < 32 then
              Inl (ValidationError ''Webhook secret must be at least 32 characters'')
            else Inr [(''webhook'', JObj [(''url'', JStr (the (webhookUrl p))),
                                           (''secret'', JStr (the (webhookSecret p)))])])
         else Inr [(''webhook'', JObj [(''url'', JStr (the (webhookUrl p)))])])
      else Inr [])"

definition launchAgent ::
  "(http_call \<Rightarrow> fetch_result) \<Rightarrow> (string \<Rightarrow> json option) \<Rightarrow> (int \<Rightarrow> string) \<Rightarrow>
   (json \<Rightarrow> error + string) \<Rightarrow> string \<Rightarrow> launch_params \<Rightarrow> (error + json) \<times> http_call list"
where
  "launchAgent net parse num str apiKey p =
     (let prompt = JObj ((''text'', JStr (promptText p))
                    # (case promptImages p of
                         None \<Rightarrow> []
                       | Some imgs \<Rightarrow> if length imgs \<noteq> 0 then [(''images'', JArr imgs)] else []));
          source = JObj ((''repository'', JStr (repository p))
                    # (if given (gitRef p) then [(''ref'', JStr (the (gitRef p)))] else []));
          model = (if given (modelName p) then [(''model'', JStr (the (modelName p)))] else []);
          target = (if target_options p \<noteq> [] then [(''target'', JObj (target_options p))] else [])
      in case webhook_option p of
           Inl err \<Rightarrow> (Inl err, [])
         | Inr webhook \<Rightarrow>
             request net parse num str apiKey ''POST'' ''/v0/agents''
               (Some (JObj ([(''prompt'', prompt), (''source'', source)] @ model @ target @ webhook))))"

declare pollLoop.simps [code]
declare pollAgentLoop.simps [code]

section \<open>Notions used to state the properties\<close>

text \<open>A value \<^verbatim>\<open>x\<close> such that \<^verbatim>\<open>x || y\<close> is \<^verbatim>\<open>x\<close>.\<close>

definition usable :: "json option \<Rightarrow> bool" where
  "usable x = (case x of None \<Rightarrow> False | Some v \<Rightarrow> truthy v)"

text \<open>A value whose \<^verbatim>\<open>status\<close> can be read and is one of the terminal statuses.\<close>

definition is_terminal :: "json \<Rightarrow> bool" where
  "is_terminal v =
     (case get_prop v ''status'' of Inl err \<Rightarrow> False | Inr s \<Rightarrow> TERMINAL_STATUSES_has s)"

text \<open>
  What the \<^verbatim>\<open>for\<close> loops store, as lists: the pairs a tick keeps and the pairs the
  final sweep keeps; \<open>set_all\<close> stores a list of pairs in order.
\<close>

fun kept :: "string \<times> outcome \<Rightarrow> (string \<times> json) list" where
  "kept (k, Fulfilled v) = (if is_terminal v then [(k, v)] else [])"
| "kept (k, Rejected err) = []"

definition terminal_pairs :: "string list \<Rightarrow> outcome list \<Rightarrow> (string \<times> json) list" where
  "terminal_pairs ks cs = concat (map kept (zip ks cs))"

fun fulfilled :: "string \<times> outcome \<Rightarrow> (string \<times> json) list" where
  "fulfilled (k, Fulfilled v) = [(k, v)]"
| "fulfilled (k, Rejected err) = []"

definition fulfilled_pairs :: "string list \<Rightarrow> outcome list \<Rightarrow> (string \<times> json) list" where
  "fulfilled_pairs ks cs = concat (map fulfilled (zip ks cs))"

definition set_all :: "poll_state \<Rightarrow> (string \<times> json) list \<Rightarrow> poll_state" where
  "set_all st ps = fold (\<lambda>(k, v) s. set_result s k v) ps st"

text \<open>
  The state of a session after the fetches of a tick (\<open>fetched\<close>), after the whole tick
  (\<open>ticked\<close>) and after the final sweep (\<open>swept\<close>).
\<close>

definition fetched :: "env \<Rightarrow> string list \<Rightarrow> poll_state \<Rightarrow> poll_state" where
  "fetched e ids st =
     snd (fetchAll e (unresolved ids (results st)) (st\<lparr>reads := Suc (reads st)\<rparr>))"

definition ticked :: "env \<Rightarrow> string list \<Rightarrow> poll_state \<Rightarrow> poll_state" where
  "ticked e ids st =
     set_all (fetched e ids st)
       (terminal_pairs (unresolved ids (results st))
          (allSettled e (fetches st) (unresolved ids (results st))))"

definition swept :: "env \<Rightarrow> string list \<Rightarrow> poll_state \<Rightarrow> poll_state" where
  "swept e ids st =
     set_all (snd (fetchAll e (unresolved ids (results st)) st))
       (fulfilled_pairs (unresolved ids (results st))
          (allSettled e (fetches st) (unresolved ids (results st))))"

abbreviation pending :: "string list \<Rightarrow> poll_state \<Rightarrow> string list" where
  "pending ids st \<equiv> unresolved ids (results st)"

abbreviation checks :: "env \<Rightarrow> string list \<Rightarrow> poll_state \<Rightarrow> outcome list" where
  "checks e ids st \<equiv> allSettled e (fetches st) (unresolved ids (results st))"

text \<open>The state in which a tick throws when it reads the \<open>n\<close>-th check.\<close>

definition thrown :: "env \<Rightarrow> string list \<Rightarrow> poll_state \<Rightarrow> nat \<Rightarrow> poll_state" where
  "thrown e ids st n =
     set_all (fetched e ids st)
       (terminal_pairs (take n (unresolved ids (results st)))
          (take n (allSettled e (fetches st) (unresolved ids (results st)))))"

text \<open>
  How the loop, having reached the state \<open>s\<close> at the head of an iteration, ends with
  the result \<open>r\<close> in the state \<open>st'\<close>: at the loop test or with nothing pending; after
  a tick that filled the map; or by the \<^verbatim>\<open>TypeError\<close> of a \<^verbatim>\<open>null\<close> payload.
\<close>

definition exits ::
  "env \<Rightarrow> int \<Rightarrow> string list \<Rightarrow> poll_state \<Rightarrow> error option \<Rightarrow> poll_state \<Rightarrow> bool"
where
  "exits e d ids s r st' \<longleftrightarrow>
     r = None \<and> (\<not> clock e (reads s) < d \<or> unresolved ids (results s) = [])
       \<and> st' = s\<lparr>reads := Suc (reads s)\<rparr>
   \<or> r = None \<and> clock e (reads s) < d \<and> unresolved ids (results s) \<noteq> []
       \<and> Fulfilled JNull \<notin> set (allSettled e (fetches s) (unresolved ids (results s)))
       \<and> st' = ticked e ids s \<and> length (results st') = length ids
   \<or> r = Some TypeError \<and> clock e (reads s) < d \<and> unresolved ids (results s) \<noteq> []
       \<and> (\<exists>n<length (unresolved ids (results s)).
             allSettled e (fetches s) (unresolved ids (results s)) ! n = Fulfilled JNull
           \<and> st' = thrown e ids s n)"

text \<open>
  The states in which a session of \<^verbatim>\<open>pollAgents\<close> stands at the head of its
  \<^verbatim>\<open>while\<close> loop: the initial state, and the state after a tick that completed
  without filling the map, followed by its sleep.
\<close>

inductive heads :: "env \<Rightarrow> int \<Rightarrow> string list \<Rightarrow> int \<Rightarrow> poll_state \<Rightarrow> bool"
  for e :: env and d :: int and ids :: "string list" and iv :: int
where
  head_init: "heads e d ids iv init_state"
| head_next:
    "heads e d ids iv s \<Longrightarrow> clock e (reads s) < d \<Longrightarrow> unresolved ids (results s) \<noteq> [] \<Longrightarrow>
     Fulfilled JNull \<notin> set (allSettled e (fetches s) (unresolved ids (results s))) \<Longrightarrow>
     length (results (ticked e ids s)) \<noteq> length ids \<Longrightarrow>
     heads e d ids iv (sleep iv (ticked e ids s))"

definition from_fetches :: "poll_state \<Rightarrow> bool" where
  "from_fetches st \<longleftrightarrow>
     (\<forall>k v. map_of (results st) k = Some v \<longrightarrow> Fetched k (Fulfilled v) \<in> set (trace st))"

definition all_terminal :: "poll_state \<Rightarrow> bool" where
  "all_terminal st \<longleftrightarrow> (\<forall>k v. map_of (results st) k = Some v \<longrightarrow> is_terminal v)"

text \<open>Observations on what a session did.\<close>

fun is_fetch :: "event \<Rightarrow> bool" where
  "is_fetch (Fetched k c) = True"
| "is_fetch ev = False"

fun is_sleep :: "event \<Rightarrow> bool" where
  "is_sleep (Slept ms) = True"
| "is_sleep ev = False"

text \<open>
  The single-job wait after \<open>m\<close> checks that did not end it: what it has done
  (\<open>waiting\<close>) and its state (\<open>after\<close>).
\<close>

fun waiting :: "env \<Rightarrow> string \<Rightarrow> int \<Rightarrow> nat \<Rightarrow> event list" where
  "waiting e k iv 0 = []"
| "waiting e k iv (Suc m) = waiting e k iv m @ [Fetched k (getAgent e m k), Slept iv]"

definition after :: "env \<Rightarrow> string \<Rightarrow> int \<Rightarrow> nat \<Rightarrow> poll_state" where
  "after e k iv m = \<lparr>reads = Suc m, fetches = m, results = [], trace = waiting e k iv m\<rparr>"

text \<open>
  The IDs a trace stores and the IDs it fetches; a trace is \<open>ordered\<close> when no ID is
  fetched after it was stored. A state satisfies \<open>no_refetch\<close> when its trace is ordered
  and every ID the trace stored is in the map.
\<close>

definition resolved_in :: "event list \<Rightarrow> string set" where
  "resolved_in tr = {k. \<exists>v. Resolved k v \<in> set tr}"

definition fetched_in :: "event list \<Rightarrow> string set" where
  "fetched_in tr = {k. \<exists>c. Fetched k c \<in> set tr}"

fun ordered :: "event list \<Rightarrow> bool" where
  "ordered [] = True"
| "ordered (Resolved k v # evs) = (k \<notin> fetched_in evs \<and> ordered evs)"
| "ordered (ev # evs) = ordered evs"

definition no_refetch :: "poll_state \<Rightarrow> bool" where
  "no_refetch st \<longleftrightarrow>
     ordered (trace st) \<and> (\<forall>k\<in>resolved_in (trace st). has (results st) k)"

text \<open>
  Since the state \<open>st\<close>, in which \<open>k\<close> was already in the map, the session has not
  fetched \<open>k\<close>.
\<close>

definition settled :: "poll_state \<Rightarrow> string \<Rightarrow> poll_state \<Rightarrow> bool" where
  "settled st k s \<longleftrightarrow>
     has (results s) k \<and> (\<exists>evs. trace s = trace st @ evs \<and> k \<notin> fetched_in evs)"

section \<open>Concrete scenarios\<close>

text \<open>A platform used to run the client on concrete exchanges.\<close>

definition demo_num :: "int \<Rightarrow> string" where
  "demo_num n = (if n = 500 then ''500'' else if n = 404 then ''404'' else ''1'')"

definition demo_str :: "json \<Rightarrow> error + string" where
  "demo_str v =
     (case v of
        JObj ps \<Rightarrow> if map_of ps ''toString'' = None then Inr ''[object Object]'' else Inl TypeError
      | JNull \<Rightarrow> Inr ''null''
      | JBool b \<Rightarrow> Inr (if b then ''true'' else ''false'')
      | _ \<Rightarrow> Inr [])"

definition error_body :: string where
  "error_body = ''{\"error\":\"boom\"}''"

definition message_body :: string where
  "message_body = ''{\"message\":\"gone\"}''"

definition demo_parse :: "string \<Rightarrow> json option" where
  "demo_parse t =
     (if t = error_body then Some (JObj [(''error'', JStr ''boom'')])
      else if t = message_body then Some (JObj [(''message'', JStr ''gone'')])
      else None)"

definition demo_net :: "int \<Rightarrow> string \<Rightarrow> http_call \<Rightarrow> fetch_result" where
  "demo_net code t c = Resp \<lparr>status = code, body_text = t\<rparr>"

definition demo_params :: launch_params where
  "demo_params =
     \<lparr>promptText = ''fix the build'', promptImages = None, repository = ''https://github.com/o/r'',
      gitRef = None, modelName = None, autoCreatePr = None, openAsCursorGithubApp = None,
      skipReviewerRequest = None, branchName = None, webhookUrl = None, webhookSecret = None\<rparr>"

text \<open>
  Polling sessions. The clock advances by one second per reading. In \<open>team_env\<close> job A
  is finished from the start, job B fails from the fourth fetch of the session on, the
  fetches of job C are rejected, every other job keeps running.
\<close>

definition job :: "string \<Rightarrow> string \<Rightarrow> json" where
  "job k s = JObj [(''id'', JStr k), (''status'', JStr s)]"

definition running_env :: env where
  "running_env =
     \<lparr>clock = (\<lambda>k. int k * 1000), getAgent = (\<lambda>n k. Fulfilled (job k ''RUNNING''))\<rparr>"

definition finished_env :: env where
  "finished_env =
     \<lparr>clock = (\<lambda>k. int k * 1000), getAgent = (\<lambda>n k. Fulfilled (job k ''FINISHED''))\<rparr>"

definition team_env :: env where
  "team_env =
     \<lparr>clock = (\<lambda>k. int k * 1000),
      getAgent = (\<lambda>n k.
        if k = ''A'' then Fulfilled (job k ''FINISHED'')
        else if k = ''B'' then Fulfilled (job k (if n < 3 then ''RUNNING'' else ''FAILED''))
        else if k = ''C'' then Rejected (NetworkError ''Network error'')
        else Fulfilled (job k ''RUNNING''))\<rparr>"

text \<open>
  In \<open>slow_env\<close> job A is finished from the start, the fetches of job C are rejected
  and every other job keeps running.
\<close>

definition slow_env :: env where
  "slow_env =
     \<lparr>clock = (\<lambda>k. int k * 1000),
      getAgent = (\<lambda>n k.
        if k = ''A'' then Fulfilled (job k ''FINISHED'')
        else if k = ''C'' then Rejected (NetworkError ''Network error'')
        else Fulfilled (job k ''RUNNING''))\<rparr>"

definition slow_result :: "json list" where
  "slow_result = [job ''A'' ''FINISHED'', job ''B'' ''RUNNING'', placeholder ''C'']"

definition slow_trace :: "event list" where
  "slow_trace =
     [Fetched ''A'' (Fulfilled (job ''A'' ''FINISHED'')),
      Fetched ''B'' (Fulfilled (job ''B'' ''RUNNING'')),
      Fetched ''C'' (Rejected (NetworkError ''Network error'')),
      Resolved ''A'' (job ''A'' ''FINISHED''),
      Slept 1000,
      Fetched ''B'' (Fulfilled (job ''B'' ''RUNNING'')),
      Fetched ''C'' (Rejected (NetworkError ''Network error'')),
      Resolved ''B'' (job ''B'' ''RUNNING'')]"

text \<open>The state in which the loop of that session over A, B and C ends.\<close>

definition slow_state :: poll_state where
  "slow_state =
     \<lparr>reads = 3, fetches = 3, results = [(''A'', job ''A'' ''FINISHED'')],
      trace = [Fetched ''A'' (Fulfilled (job ''A'' ''FINISHED'')),
               Fetched ''B'' (Fulfilled (job ''B'' ''RUNNING'')),
               Fetched ''C'' (Rejected (NetworkError ''Network error'')),
               Resolved ''A'' (job ''A'' ''FINISHED''),
               Slept 1000]\<rparr>"

text \<open>In \<open>late_env\<close> a job is running at its first two checks and finished afterwards.\<close>

definition late_env :: env where
  "late_env =
     \<lparr>clock = (\<lambda>k. int k * 1000),
      getAgent = (\<lambda>n k. Fulfilled (job k (if n < 2 then ''RUNNING'' else ''FINISHED'')))\<rparr>"

definition team_result :: "json list" where
  "team_result = [job ''A'' ''FINISHED'', job ''B'' ''FAILED'', placeholder ''C'']"

definition team_trace :: "event list" where
  "team_trace =
     [Fetched ''A'' (Fulfilled (job ''A'' ''FINISHED'')),
      Fetched ''B'' (Fulfilled (job ''B'' ''RUNNING'')),
      Fetched ''C'' (Rejected (NetworkError ''Network error'')),
      Resolved ''A'' (job ''A'' ''FINISHED''),
      Slept 1000,
      Fetched ''B'' (Fulfilled (job ''B'' ''FAILED'')),
      Fetched ''C'' (Rejected (NetworkError ''Network error'')),
      Resolved ''B'' (job ''B'' ''FAILED''),
      Slept 1000,
      Fetched ''C'' (Rejected (NetworkError ''Network error''))]"

text \<open>In \<open>half_env\<close> job A is finished and every other fetch succeeds with \<^verbatim>\<open>null\<close>.\<close>

definition half_env :: env where
  "half_env =
     \<lparr>clock = (\<lambda>k. int k * 1000),
      getAgent = (\<lambda>n k. if k = ''A'' then Fulfilled (job k ''FINISHED'') else Fulfilled JNull)\<rparr>"

text \<open>
  In \<open>odd_env\<close> every fetch yields a record whose status is an object with a
  \<^verbatim>\<open>toString\<close> property of its own.
\<close>

definition odd_job :: "string \<Rightarrow> json" where
  "odd_job k = JObj [(''id'', JStr k), (''status'', JObj [(''toString'', JNum 1)])]"

definition odd_env :: env where
  "odd_env = \<lparr>clock = (\<lambda>k. int k * 1000), getAgent = (\<lambda>n k. Fulfilled (odd_job k))\<rparr>"

text \<open>A session on the single job A, already stored.\<close>

definition one_resolved :: poll_state where
  "one_resolved =
     \<lparr>reads = 1, fetches = 1, results = [(''A'', job ''A'' ''FINISHED'')],
      trace = [Fetched ''A'' (Fulfilled (job ''A'' ''FINISHED'')),
               Resolved ''A'' (job ''A'' ''FINISHED'')]\<rparr>"

section \<open>What a tick and the final sweep store\<close>

lemma length_allSettled [simp]: "length (allSettled e n ks) = length ks"
  by (induction ks arbitrary: n) auto

lemma allSettled_nth: "i < length ks \<Longrightarrow> allSettled e n ks ! i = getAgent e (n + i) (ks ! i)"
proof (induction ks arbitrary: n i)
  case Nil
  then show ?case by simp
next
  case (Cons k ks)
  then show ?case by (cases i) auto
qed

lemma set_all_Nil [simp]: "set_all st [] = st"
  by (simp add: set_all_def)

lemma set_all_Cons [simp]: "set_all st ((k, v) # ps) = set_all (set_result st k v) ps"
  by (simp add: set_all_def)

lemma set_all_fields [simp]:
  "reads (set_all st ps) = reads st"
  "fetches (set_all st ps) = fetches st"
  "trace (set_all st ps) = trace st @ map (\<lambda>(k, v). Resolved k v) ps"
  "results (set_all st ps) = fold (\<lambda>(k, v). AList.update k v) ps (results st)"
  by (induction ps arbitrary: st; auto simp: set_result_def)+

lemma fetchAll_fields [simp]:
  "fst (fetchAll e ks st) = allSettled e (fetches st) ks"
  "reads (snd (fetchAll e ks st)) = reads st"
  "fetches (snd (fetchAll e ks st)) = fetches st + length ks"
  "results (snd (fetchAll e ks st)) = results st"
  "trace (snd (fetchAll e ks st)) = trace st @ map2 Fetched ks (allSettled e (fetches st) ks)"
  by (simp_all add: fetchAll_def Let_def)

lemma sleep_fields [simp]:
  "reads (sleep ms st) = reads st"
  "fetches (sleep ms st) = fetches st"
  "results (sleep ms st) = results st"
  "trace (sleep ms st) = trace st @ [Slept ms]"
  by (simp_all add: sleep_def)

lemma init_state_fields [simp]:
  "reads init_state = 1" "fetches init_state = 0" "results init_state = []" "trace init_state = []"
  by (simp_all add: init_state_def)

lemma is_terminal_JNull [simp]: "\<not> is_terminal JNull"
  by (simp add: is_terminal_def)

lemma is_terminal_truthy: "is_terminal v \<Longrightarrow> truthy v"
  by (cases v) (auto simp: is_terminal_def)

lemma status_readable: "v \<noteq> JNull \<Longrightarrow> \<exists>s. get_prop v ''status'' = Inr s"
  by (cases v) auto

lemma status_of_null: "get_prop v ''status'' = Inl err \<Longrightarrow> v = JNull \<and> err = TypeError"
  by (cases v) auto

lemma terminal_pairs_simps [simp]:
  "terminal_pairs [] cs = []"
  "terminal_pairs ks [] = []"
  "terminal_pairs (k # ks) (Rejected err # cs) = terminal_pairs ks cs"
  "terminal_pairs (k # ks) (Fulfilled v # cs) =
     (if is_terminal v then (k, v) # terminal_pairs ks cs else terminal_pairs ks cs)"
  by (simp_all add: terminal_pairs_def)

lemma fulfilled_pairs_simps [simp]:
  "fulfilled_pairs [] cs = []"
  "fulfilled_pairs ks [] = []"
  "fulfilled_pairs (k # ks) (Rejected err # cs) = fulfilled_pairs ks cs"
  "fulfilled_pairs (k # ks) (Fulfilled v # cs) = (k, v) # fulfilled_pairs ks cs"
  by (simp_all add: fulfilled_pairs_def)

text \<open>
  The \<^verbatim>\<open>for\<close> loop of a tick either stores the terminal pairs of all checks, or a
  check is \<^verbatim>\<open>null\<close> and it throws after storing those of the checks before it.
\<close>

lemma recordTerminal_cases:
  assumes "length cs = length ks"
  shows "Fulfilled JNull \<notin> set cs
       \<and> recordTerminal ks cs st = (None, set_all st (terminal_pairs ks cs))
     \<or> (\<exists>n<length ks. cs ! n = Fulfilled JNull
          \<and> recordTerminal ks cs st
            = (Some TypeError, set_all st (terminal_pairs (take n ks) (take n cs))))"
  using assms
proof (induction ks cs st rule: recordTerminal.induct)
  case (1 cs st)
  then show ?case by simp
next
  case (2 k ks st)
  then show ?case by simp
next
  case (3 k ks err cs st)
  then have "length cs = length ks" by simp
  from "3.IH" [OF this] show ?case
  proof
    assume "Fulfilled JNull \<notin> set cs
       \<and> recordTerminal ks cs st = (None, set_all st (terminal_pairs ks cs))"
    then show ?thesis by simp
  next
    assume "\<exists>n<length ks. cs ! n = Fulfilled JNull
          \<and> recordTerminal ks cs st
            = (Some TypeError, set_all st (terminal_pairs (take n ks) (take n cs)))"
    then obtain n where "n < length ks" "cs ! n = Fulfilled JNull"
      "recordTerminal ks cs st
         = (Some TypeError, set_all st (terminal_pairs (take n ks) (take n cs)))"
      by blast
    then show ?thesis
      by (intro disjI2 exI [of _ "Suc n"]) simp
  qed
next
  case (4 k ks agent cs st)
  then have len: "length cs = length ks" by simp
  show ?case
  proof (cases "get_prop agent ''status''")
    case (Inl err)
    then have "agent = JNull" "err = TypeError"
      by (auto dest: status_of_null)
    with Inl show ?thesis
      by (intro disjI2 exI [of _ 0]) simp
  next
    case (Inr s)
    then have nn: "agent \<noteq> JNull" by auto
    let ?st = "if TERMINAL_STATUSES_has s then set_result st k agent else st"
    have rec: "recordTerminal (k # ks) (Fulfilled agent # cs) st = recordTerminal ks cs ?st"
      using Inr by simp
    have tp: "set_all st (terminal_pairs (k # ks) (Fulfilled agent # cs))
        = set_all ?st (terminal_pairs ks cs)"
      "\<And>n. set_all st (terminal_pairs (take (Suc n) (k # ks)) (take (Suc n) (Fulfilled agent # cs)))
        = set_all ?st (terminal_pairs (take n ks) (take n cs))"
      using Inr by (simp_all add: is_terminal_def)
    have IH: "Fulfilled JNull \<notin> set cs
         \<and> recordTerminal ks cs ?st = (None, set_all ?st (terminal_pairs ks cs))
       \<or> (\<exists>n<length ks. cs ! n = Fulfilled JNull
            \<and> recordTerminal ks cs ?st
              = (Some TypeError, set_all ?st (terminal_pairs (take n ks) (take n cs))))"
      using "4.IH" [OF Inr _ len] "4.IH" [OF Inr] len by (cases "TERMINAL_STATUSES_has s") auto
    then show ?thesis
    proof
      assume "Fulfilled JNull \<notin> set cs
         \<and> recordTerminal ks cs ?st = (None, set_all ?st (terminal_pairs ks cs))"
      with nn show ?thesis
        unfolding rec tp by auto
    next
      assume "\<exists>n<length ks. cs ! n = Fulfilled JNull
            \<and> recordTerminal ks cs ?st
              = (Some TypeError, set_all ?st (terminal_pairs (take n ks) (take n cs)))"
      then obtain n where n: "n < length ks" "cs ! n = Fulfilled JNull"
        "recordTerminal ks cs ?st
           = (Some TypeError, set_all ?st (terminal_pairs (take n ks) (take n cs)))"
        by blast
      show ?thesis
        unfolding rec
        using n tp(2) [of n] by (intro disjI2 exI [of _ "Suc n"]) simp
    qed
  qed
qed

lemma recordTerminal_total:
  "length cs = length ks \<Longrightarrow> Fulfilled JNull \<notin> set cs \<Longrightarrow>
   recordTerminal ks cs st = (None, set_all st (terminal_pairs ks cs))"
  using recordTerminal_cases [of cs ks st] by (auto simp: in_set_conv_nth)

lemma recordFulfilled_eq:
  "length cs = length ks \<Longrightarrow> recordFulfilled ks cs st = (None, set_all st (fulfilled_pairs ks cs))"
  by (induction ks cs st rule: recordFulfilled.induct) auto

lemma map_of_fold_update:
  "map_of (fold (\<lambda>(k, v). AList.update k v) ps rs) k =
     (case map_of (rev ps) k of None \<Rightarrow> map_of rs k | Some v \<Rightarrow> Some v)"
proof (induction ps arbitrary: rs)
  case Nil
  then show ?case by simp
next
  case (Cons p ps)
  then show ?case
    by (cases p) (auto simp: update_conv' map_add_def split: option.splits)
qed

lemma in_terminal_pairs:
  "(k, v) \<in> set (terminal_pairs ks cs) \<longleftrightarrow> (k, Fulfilled v) \<in> set (zip ks cs) \<and> is_terminal v"
proof -
  have "(k, v) \<in> set (kept p) \<longleftrightarrow> p = (k, Fulfilled v) \<and> is_terminal v" for p
    by (cases p rule: kept.cases) auto
  then show ?thesis
    by (auto simp: terminal_pairs_def)
qed

lemma in_fulfilled_pairs:
  "(k, v) \<in> set (fulfilled_pairs ks cs) \<longleftrightarrow> (k, Fulfilled v) \<in> set (zip ks cs)"
proof -
  have "(k, v) \<in> set (fulfilled p) \<longleftrightarrow> p = (k, Fulfilled v)" for p
    by (cases p rule: fulfilled.cases) auto
  then show ?thesis
    by (auto simp: fulfilled_pairs_def)
qed

lemma in_zip_take: "p \<in> set (zip (take n ks) (take n cs)) \<Longrightarrow> p \<in> set (zip ks cs)"
  by (metis take_zip in_set_takeD)

lemma map_of_fold_update_cases:
  assumes "map_of (fold (\<lambda>(k, v). AList.update k v) ps rs) k = Some v"
  shows "(k, v) \<in> set ps \<or> (k \<notin> fst ` set ps \<and> map_of rs k = Some v)"
proof (cases "map_of (rev ps) k")
  case None
  then have "k \<notin> fst ` set ps"
    by (simp add: map_of_eq_None_iff)
  with assms None show ?thesis
    by (simp add: map_of_fold_update)
next
  case (Some w)
  with assms have "w = v"
    by (simp add: map_of_fold_update)
  with Some have "(k, v) \<in> set (rev ps)"
    by (auto dest: map_of_SomeD)
  then show ?thesis by simp
qed

lemma has_fold_update:
  "has (fold (\<lambda>(k, v). AList.update k v) ps rs) k \<longleftrightarrow> has rs k \<or> k \<in> fst ` set ps"
proof (cases "map_of (rev ps) k")
  case None
  then have "k \<notin> fst ` set ps"
    by (simp add: map_of_eq_None_iff)
  with None show ?thesis
    by (simp add: has_def map_of_fold_update)
next
  case (Some w)
  then have "(k, w) \<in> set ps"
    by (auto dest: map_of_SomeD)
  then have "k \<in> fst ` set ps"
    by force
  with Some show ?thesis
    by (simp add: has_def map_of_fold_update)
qed

lemma map_of_fold_update_other:
  "k \<notin> fst ` set ps \<Longrightarrow> map_of (fold (\<lambda>(k, v). AList.update k v) ps rs) k = map_of rs k"
  by (simp add: map_of_fold_update map_of_eq_None_iff[THEN iffD2] split: option.splits)

lemma allSettled_from_env:
  "c \<in> set (allSettled e n ks) \<Longrightarrow> \<exists>m k. c = getAgent e m k"
  by (induction ks arbitrary: n) auto

lemma fetched_fields [simp]:
  "reads (fetched e ids st) = Suc (reads st)"
  "fetches (fetched e ids st) = fetches st + length (unresolved ids (results st))"
  "results (fetched e ids st) = results st"
  "trace (fetched e ids st) =
     trace st @ map2 Fetched (unresolved ids (results st))
                  (allSettled e (fetches st) (unresolved ids (results st)))"
  by (simp_all add: fetched_def)

lemma ticked_fields [simp]:
  "reads (ticked e ids st) = Suc (reads st)"
  "fetches (ticked e ids st) = fetches st + length (unresolved ids (results st))"
  "results (ticked e ids st) =
     fold (\<lambda>(k, v). AList.update k v)
       (terminal_pairs (unresolved ids (results st))
          (allSettled e (fetches st) (unresolved ids (results st)))) (results st)"
  "trace (ticked e ids st) =
     trace st @ map2 Fetched (unresolved ids (results st))
                  (allSettled e (fetches st) (unresolved ids (results st)))
       @ map (\<lambda>(k, v). Resolved k v)
           (terminal_pairs (unresolved ids (results st))
              (allSettled e (fetches st) (unresolved ids (results st))))"
  by (simp_all add: ticked_def)

lemma thrown_fields [simp]:
  "reads (thrown e ids st n) = Suc (reads st)"
  "fetches (thrown e ids st n) = fetches st + length (unresolved ids (results st))"
  "results (thrown e ids st n) =
     fold (\<lambda>(k, v). AList.update k v)
       (terminal_pairs (take n (unresolved ids (results st)))
          (take n (allSettled e (fetches st) (unresolved ids (results st))))) (results st)"
  "trace (thrown e ids st n) =
     trace st @ map2 Fetched (unresolved ids (results st))
                  (allSettled e (fetches st) (unresolved ids (results st)))
       @ map (\<lambda>(k, v). Resolved k v)
           (terminal_pairs (take n (unresolved ids (results st)))
              (take n (allSettled e (fetches st) (unresolved ids (results st)))))"
  by (simp_all add: thrown_def)

lemma finalSweep_eq: "finalSweep e ids st = (None, swept e ids st)"
  by (simp add: finalSweep_def swept_def Let_def recordFulfilled_eq)

lemma swept_fields [simp]:
  "reads (swept e ids st) = reads st"
  "fetches (swept e ids st) = fetches st + length (unresolved ids (results st))"
  "results (swept e ids st) =
     fold (\<lambda>(k, v). AList.update k v)
       (fulfilled_pairs (unresolved ids (results st))
          (allSettled e (fetches st) (unresolved ids (results st)))) (results st)"
  "trace (swept e ids st) =
     trace st @ map2 Fetched (unresolved ids (results st))
                  (allSettled e (fetches st) (unresolved ids (results st)))
       @ map (\<lambda>(k, v). Resolved k v)
           (fulfilled_pairs (unresolved ids (results st))
              (allSettled e (fetches st) (unresolved ids (results st))))"
  by (simp_all add: swept_def)

lemma pollLoop_step:
  "pollLoop e d ids iv st =
     (if clock e (reads st) < d \<and> unresolved ids (results st) \<noteq> [] then
        (case recordTerminal (unresolved ids (results st))
                (allSettled e (fetches st) (unresolved ids (results st))) (fetched e ids st) of
           (Some err, stk) \<Rightarrow> Some (Some err, stk)
         | (None, stk) \<Rightarrow>
             if length (results stk) = length ids then Some (None, stk)
             else pollLoop e d ids iv (sleep iv stk))
      else Some (None, st\<lparr>reads := Suc (reads st)\<rparr>))"
  unfolding fetched_def by (subst pollLoop.simps) (simp add: Let_def)

lemma recordTerminal_tick:
  assumes "Fulfilled JNull \<notin> set (allSettled e (fetches st) (unresolved ids (results st)))"
  shows "recordTerminal (unresolved ids (results st))
           (allSettled e (fetches st) (unresolved ids (results st))) (fetched e ids st)
         = (None, ticked e ids st)"
  using assms by (simp add: recordTerminal_total ticked_def)

lemma recordTerminal_tick_cases:
  "Fulfilled JNull \<notin> set (allSettled e (fetches st) (unresolved ids (results st)))
     \<and> recordTerminal (unresolved ids (results st))
           (allSettled e (fetches st) (unresolved ids (results st))) (fetched e ids st)
         = (None, ticked e ids st)
   \<or> (\<exists>n<length (unresolved ids (results st)).
         allSettled e (fetches st) (unresolved ids (results st)) ! n = Fulfilled JNull
       \<and> recordTerminal (unresolved ids (results st))
           (allSettled e (fetches st) (unresolved ids (results st))) (fetched e ids st)
         = (Some TypeError, thrown e ids st n))"
  using recordTerminal_cases
    [of "allSettled e (fetches st) (unresolved ids (results st))" "unresolved ids (results st)"
        "fetched e ids st"]
  by (simp add: ticked_def thrown_def)

text \<open>A tick in which no check is \<^verbatim>\<open>null\<close>.\<close>

lemma pollLoop_tick:
  assumes "clock e (reads st) < d" and "unresolved ids (results st) \<noteq> []"
    and "Fulfilled JNull \<notin> set (allSettled e (fetches st) (unresolved ids (results st)))"
  shows "pollLoop e d ids iv st =
     (if length (results (ticked e ids st)) = length ids then Some (None, ticked e ids st)
      else pollLoop e d ids iv (sleep iv (ticked e ids st)))"
  using assms by (subst pollLoop_step) (simp add: recordTerminal_tick)

lemma pollLoop_done:
  assumes "\<not> clock e (reads st) < d \<or> unresolved ids (results st) = []"
  shows "pollLoop e d ids iv st = Some (None, st\<lparr>reads := Suc (reads st)\<rparr>)"
  using assms by (subst pollLoop_step) auto

lemma nonnull_checks:
  "\<forall>n k. getAgent e n k \<noteq> Fulfilled JNull \<Longrightarrow> Fulfilled JNull \<notin> set (allSettled e m ks)"
  by (metis allSettled_from_env)

lemma pollLoop_step_nonnull:
  assumes "\<forall>n k. getAgent e n k \<noteq> Fulfilled JNull"
  shows "pollLoop e d ids iv st =
     (if clock e (reads st) < d \<and> unresolved ids (results st) \<noteq> [] then
        (if length (results (ticked e ids st)) = length ids then Some (None, ticked e ids st)
         else pollLoop e d ids iv (sleep iv (ticked e ids st)))
      else Some (None, st\<lparr>reads := Suc (reads st)\<rparr>))"
  by (subst pollLoop_step) (simp add: recordTerminal_tick nonnull_checks [OF assms])

text \<open>The loop ends once the clock has reached the deadline at some reading.\<close>

lemma pollLoop_returns:
  assumes "reads st \<le> K" and "\<not> clock e K < d"
  shows "\<exists>r st'. pollLoop e d ids iv st = Some (r, st')"
  using assms
proof (induction "K - reads st" arbitrary: st)
  case 0
  then have "\<not> clock e (reads st) < d" by simp
  then show ?case
    by (simp add: pollLoop_done)
next
  case (Suc m)
  have IH: "\<exists>r st'. pollLoop e d ids iv (sleep iv (ticked e ids st)) = Some (r, st')"
    using Suc.prems Suc.hyps(2) by (intro Suc.hyps(1)) auto
  from recordTerminal_tick_cases [of e st ids] show ?case
  proof
    assume "Fulfilled JNull \<notin> set (allSettled e (fetches st) (unresolved ids (results st)))
     \<and> recordTerminal (unresolved ids (results st))
           (allSettled e (fetches st) (unresolved ids (results st))) (fetched e ids st)
         = (None, ticked e ids st)"
    with IH show ?thesis
      by (subst pollLoop_step) simp
  next
    assume "\<exists>n<length (unresolved ids (results st)).
         allSettled e (fetches st) (unresolved ids (results st)) ! n = Fulfilled JNull
       \<and> recordTerminal (unresolved ids (results st))
           (allSettled e (fetches st) (unresolved ids (results st))) (fetched e ids st)
         = (Some TypeError, thrown e ids st n)"
    then show ?thesis
      by (subst pollLoop_step) auto
  qed
qed

lemma pollLoop_returns_nonnull:
  assumes "reads st \<le> K" and "\<not> clock e K < d"
    and nonnull: "\<forall>n k. getAgent e n k \<noteq> Fulfilled JNull"
  shows "\<exists>st'. pollLoop e d ids iv st = Some (None, st')"
  using assms(1,2)
proof (induction "K - reads st" arbitrary: st)
  case 0
  then have "\<not> clock e (reads st) < d" by simp
  then show ?case
    by (simp add: pollLoop_done)
next
  case (Suc m)
  have "\<exists>st'. pollLoop e d ids iv (sleep iv (ticked e ids st)) = Some (None, st')"
    using Suc.prems Suc.hyps(2) by (intro Suc.hyps(1)) auto
  then show ?case
    by (subst pollLoop_step_nonnull [OF nonnull]) simp
qed

text \<open>
  Every run of the loop that ends leaves through one of its three exits, from a head
  state reached by completed ticks each followed by a sleep.
\<close>

lemma pollLoop_exit:
  assumes run: "pollLoop e d ids iv st = Some (r, st')"
    and init: "H st"
    and step: "\<And>s. H s \<Longrightarrow> clock e (reads s) < d \<Longrightarrow> unresolved ids (results s) \<noteq> [] \<Longrightarrow>
        Fulfilled JNull \<notin> set (allSettled e (fetches s) (unresolved ids (results s))) \<Longrightarrow>
        length (results (ticked e ids s)) \<noteq> length ids \<Longrightarrow> H (sleep iv (ticked e ids s))"
  shows "\<exists>s. H s \<and> exits e d ids s r st'"
proof -
  have "e = e \<longrightarrow> d = d \<longrightarrow> ids = ids \<longrightarrow> iv = iv \<longrightarrow> H st
      \<longrightarrow> (\<exists>s. H s \<and> exits e d ids s (fst (r, st')) (snd (r, st')))"
  proof (rule pollLoop.raw_induct
      [where P = "\<lambda>e' d' ids' iv' s y. e' = e \<longrightarrow> d' = d \<longrightarrow> ids' = ids \<longrightarrow> iv' = iv \<longrightarrow> H s
          \<longrightarrow> (\<exists>s. H s \<and> exits e d ids s (fst y) (snd y))",
        OF _ run], goal_cases)
    case (1 loop e' d' ids' iv' s y)
    note IH = 1(1) and body = 1(2)
    show ?case
    proof (intro impI)
      assume eq: "e' = e" "d' = d" "ids' = ids" "iv' = iv" and Hs: "H s"
      let ?U = "unresolved ids (results s)"
      let ?cs = "allSettled e (fetches s) ?U"
      let ?s1 = "s\<lparr>reads := Suc (reads s)\<rparr>"
      have ft: "fst (fetchAll e ?U ?s1) = ?cs" "snd (fetchAll e ?U ?s1) = fetched e ids s"
        by (simp_all add: fetched_def)
      show "\<exists>s. H s \<and> exits e d ids s (fst y) (snd y)"
      proof (cases "clock e (reads s) < d \<and> ?U \<noteq> []")
        case False
        with body eq have "y = (None, ?s1)"
          by (auto simp: Let_def split: if_splits)
        with False have "exits e d ids s (fst y) (snd y)"
          by (auto simp: exits_def)
        with Hs show ?thesis by blast
      next
        case True
        have body':
          "(case recordTerminal ?U ?cs (fetched e ids s) of
              (Some err, stk) \<Rightarrow> Some (Some err, stk)
            | (None, stk) \<Rightarrow>
                if length (results stk) = length ids then Some (None, stk)
                else loop e d ids iv (sleep iv stk)) = Some y"
          using body True unfolding eq by (simp add: Let_def fetched_def)
        from recordTerminal_tick_cases [of e s ids] show ?thesis
        proof
          assume A: "Fulfilled JNull \<notin> set ?cs
            \<and> recordTerminal ?U ?cs (fetched e ids s) = (None, ticked e ids s)"
          show ?thesis
          proof (cases "length (results (ticked e ids s)) = length ids")
            case full: True
            from body' A full have "y = (None, ticked e ids s)"
              by (simp del: ticked_fields)
            with True A full have "exits e d ids s (fst y) (snd y)"
              by (simp add: exits_def del: ticked_fields)
            with Hs show ?thesis by blast
          next
            case notfull: False
            from body' A notfull
            have "loop e d ids iv (sleep iv (ticked e ids s)) = Some y"
              by (simp del: ticked_fields)
            moreover have "H (sleep iv (ticked e ids s))"
              using Hs True A notfull by (intro step) simp_all
            ultimately show ?thesis
              using IH eq by blast
          qed
        next
          assume "\<exists>n<length ?U. ?cs ! n = Fulfilled JNull
            \<and> recordTerminal ?U ?cs (fetched e ids s) = (Some TypeError, thrown e ids s n)"
          then obtain n where n: "n < length ?U" "?cs ! n = Fulfilled JNull"
            "recordTerminal ?U ?cs (fetched e ids s) = (Some TypeError, thrown e ids s n)"
            by blast
          from body' n(3) have "y = (Some TypeError, thrown e ids s n)"
            by simp
          with True n(1,2) have "exits e d ids s (fst y) (snd y)"
            unfolding exits_def by auto
          with Hs show ?thesis by blast
        qed
      qed
    qed
  qed
  with init show ?thesis by simp
qed

lemma pollLoop_invariant:
  assumes run: "pollLoop e d ids iv st = Some (r, st')"
    and init: "I st"
    and rd: "\<And>s. I s \<Longrightarrow> I (s\<lparr>reads := Suc (reads s)\<rparr>)"
    and tk: "\<And>s. I s \<Longrightarrow> I (ticked e ids s)"
    and th: "\<And>s n. I s \<Longrightarrow> I (thrown e ids s n)"
    and sl: "\<And>s. I s \<Longrightarrow> I (sleep iv s)"
  shows "I st'"
proof -
  from pollLoop_exit [where H = I, OF run init] tk sl
  obtain s where "I s" "exits e d ids s r st'"
    by blast
  then show ?thesis
    unfolding exits_def using rd tk th by auto
qed

lemma Fetched_in_map2:
  "(k, c) \<in> set (zip ks cs) \<Longrightarrow> Fetched k c \<in> set (map2 Fetched ks cs)"
  by force

lemma pollAgents_of_loop:
  assumes "pollLoop e (clock e 0 + tmo) ids iv init_state = Some (None, st)"
  shows "pollAgents e ids iv tmo =
     Some (Inr (map (entry (results (swept e ids st))) ids), trace (swept e ids st))"
  using assms by (simp add: pollAgents_def finalSweep_eq)

lemma pollAgents_Inr:
  assumes "pollAgents e ids iv tmo = Some (Inr res, tr)"
  shows "\<exists>st. pollLoop e (clock e 0 + tmo) ids iv init_state = Some (None, st)
     \<and> res = map (entry (results (swept e ids st))) ids \<and> tr = trace (swept e ids st)"
proof (cases "pollLoop e (clock e 0 + tmo) ids iv init_state")
  case None
  with assms show ?thesis
    by (simp add: pollAgents_def)
next
  case (Some y)
  obtain r st where y: "y = (r, st)"
    by (cases y)
  with Some assms show ?thesis
    by (cases r) (auto simp: pollAgents_def finalSweep_eq)
qed

lemma pollAgents_Some:
  assumes "pollAgents e ids iv tmo = Some (r, tr)"
  shows "\<exists>r' st. pollLoop e (clock e 0 + tmo) ids iv init_state = Some (r', st)
     \<and> (tr = trace st \<or> tr = trace (swept e ids st))"
proof (cases "pollLoop e (clock e 0 + tmo) ids iv init_state")
  case None
  with assms show ?thesis
    by (simp add: pollAgents_def)
next
  case (Some y)
  obtain r' st where y: "y = (r', st)"
    by (cases y)
  with Some assms show ?thesis
    by (cases r') (auto simp: pollAgents_def finalSweep_eq)
qed

lemma from_fetches_ticked: "from_fetches st \<Longrightarrow> from_fetches (ticked e ids st)"
  unfolding from_fetches_def
  by (auto dest!: map_of_fold_update_cases simp: in_terminal_pairs intro: Fetched_in_map2)

lemma from_fetches_swept: "from_fetches st \<Longrightarrow> from_fetches (swept e ids st)"
  unfolding from_fetches_def
  by (auto dest!: map_of_fold_update_cases simp: in_fulfilled_pairs intro: Fetched_in_map2)

lemma all_terminal_loop:
  assumes "pollLoop e d ids iv st = Some (r, st')" and "all_terminal st"
  shows "all_terminal st'"
  using assms
proof (rule pollLoop_invariant)
  show "all_terminal (ticked e ids s)" if "all_terminal s" for s
    using that unfolding all_terminal_def
    by (auto dest!: map_of_fold_update_cases simp: in_terminal_pairs)
  show "all_terminal (thrown e ids s n)" if "all_terminal s" for s n
    using that unfolding all_terminal_def
    by (auto dest!: map_of_fold_update_cases simp: in_terminal_pairs)
qed (simp_all add: all_terminal_def)

section \<open>The empty list of IDs\<close>

lemma pollLoop_Nil:
  "pollLoop e deadline [] intervalMs st = Some (None, st\<lparr>reads := Suc (reads st)\<rparr>)"
  by (subst pollLoop.simps) (simp add: unresolved_def)

text \<open>
  C10. Called with an empty ID list, \<^verbatim>\<open>pollAgents\<close> returns the empty list at once:
  whatever the clock and the service do, it fetches nothing and never sleeps.
\<close>

theorem pollAgents_empty:
  "pollAgents e [] intervalMs timeoutMs = Some (Inr [], [])"
  by (simp add: pollAgents_def pollLoop_Nil finalSweep_def init_state_def unresolved_def)

section \<open>Failures of the HTTP client\<close>

text \<open>
  C9, as the claim states it, fails: a body without a \<^verbatim>\<open>message\<close> field but with an
  \<^verbatim>\<open>error\<close> field yields the \<^verbatim>\<open>error\<close> field as the message, not the raw body text.
\<close>

theorem request_error_field_counterexample:
  "request (demo_net 500 error_body) demo_parse demo_num demo_str ''key'' ''GET'' ''/v0/me'' None
     = (Inl (HttpError ''boom'' 500 (JObj [(''error'', JStr ''boom'')])),
        [\<lparr>call_method = ''GET'', call_url = ''https://api.cursor.com/v0/me'',
          call_key = ''key'', call_body = None\<rparr>])
   \<and> opt_prop (JObj [(''error'', JStr ''boom'')]) ''message'' = None
   \<and> ''boom'' \<noteq> error_body"
  by (simp add: request_def demo_net_def demo_parse_def error_body_def ok_def
      error_message_def extract_message_def BASE_URL_def)

text \<open>
  The conversion of the chosen message to a string can throw, and then \<^verbatim>\<open>request\<close>
  throws that error in place of the structured failure: here the \<^verbatim>\<open>message\<close> field
  is an object with a \<^verbatim>\<open>toString\<close> property of its own.
\<close>

lemma request_message_not_convertible:
  "request (demo_net 500 ''{\"message\":{\"toString\":1}}'')
       (\<lambda>t. Some (JObj [(''message'', JObj [(''toString'', JNum 1)])]))
       demo_num demo_str ''key'' ''GET'' ''/v0/me'' None
     = (Inl TypeError,
        [\<lparr>call_method = ''GET'', call_url = ''https://api.cursor.com/v0/me'',
          call_key = ''key'', call_body = None\<rparr>])"
  by (simp add: request_def demo_net_def ok_def extract_message_def demo_str_def BASE_URL_def)

text \<open>
  C9, amended. Take an exchange whose status is outside 200..299. \<^verbatim>\<open>request\<close> issues
  exactly one HTTP call and chooses as message the first usable of: the body's
  \<^verbatim>\<open>message\<close> field, the body's \<^verbatim>\<open>error\<close> field, the raw body text, the phrase
  \<^verbatim>\<open>HTTP <status>\<close>. Whenever that message converts to a string \<open>t\<close> (a string
  converts to itself), \<^verbatim>\<open>request\<close> throws a failure that carries the status code and
  the parsed body (\<^verbatim>\<open>null\<close> when the body does not parse), whose message is \<open>t\<close>
  wrapped in guidance for 401, 403, 404 and 429, and \<open>t\<close> itself for every other
  status.
\<close>

theorem request_failure:
  assumes net: "net \<lparr>call_method = m, call_url = BASE_URL @ path, call_key = key,
                      call_body = body\<rparr> = Resp r"
    and bad: "\<not> ok r"
  shows "\<exists>msg data.
      data = (case parse (body_text r) of None \<Rightarrow> JNull | Some d \<Rightarrow> d)
    \<and> (usable (opt_prop data ''message'') \<longrightarrow> Some msg = opt_prop data ''message'')
    \<and> (\<not> usable (opt_prop data ''message'') \<and> usable (opt_prop data ''error'') \<longrightarrow>
          Some msg = opt_prop data ''error'')
    \<and> (\<not> usable (opt_prop data ''message'') \<and> \<not> usable (opt_prop data ''error'')
          \<and> body_text r \<noteq> [] \<longrightarrow> msg = JStr (body_text r))
    \<and> (\<not> usable (opt_prop data ''message'') \<and> \<not> usable (opt_prop data ''error'')
          \<and> body_text r = [] \<longrightarrow> msg = JStr (''HTTP '' @ num (status r)))
    \<and> (\<forall>s. msg = JStr s \<longrightarrow> ToString num str msg = Inr s)
    \<and> (\<forall>t. ToString num str msg = Inr t \<longrightarrow>
          request net parse num str key m path body =
            (Inl (HttpError (error_message (status r) t) (status r) data),
             [\<lparr>call_method = m, call_url = BASE_URL @ path, call_key = key, call_body = body\<rparr>])
        \<and> (status r = 401 \<longrightarrow> error_message (status r) t =
              ''Authentication failed: '' @ t @ ''. Check CURSOR_API_KEY.'')
        \<and> (status r = 403 \<longrightarrow> error_message (status r) t =
              ''Forbidden: '' @ t @ ''. Ensure the GitHub App is installed on this repo.'')
        \<and> (status r = 404 \<longrightarrow> error_message (status r) t =
              ''Not found: '' @ t @ ''. Agent may have been deleted.'')
        \<and> (status r = 429 \<longrightarrow> error_message (status r) t =
              ''Rate limit exceeded: '' @ t @ ''. Back off and retry.'')
        \<and> (status r \<notin> {401, 403, 404, 429} \<longrightarrow> error_message (status r) t = t))"
proof -
  let ?data = "case parse (body_text r) of None \<Rightarrow> JNull | Some d \<Rightarrow> d"
  let ?msg = "extract_message num ?data r"
  have no204: "status r \<noteq> 204"
    using bad by (auto simp: ok_def)
  have run: "request net parse num str key m path body =
      (Inl (HttpError (error_message (status r) t) (status r) ?data),
       [\<lparr>call_method = m, call_url = BASE_URL @ path, call_key = key, call_body = body\<rparr>])"
    if "ToString num str ?msg = Inr t" for t
    using net bad no204 that by (simp add: request_def Let_def)
  have pick:
    "usable (opt_prop ?data ''message'') \<longrightarrow> Some ?msg = opt_prop ?data ''message''"
    "\<not> usable (opt_prop ?data ''message'') \<and> usable (opt_prop ?data ''error'') \<longrightarrow>
       Some ?msg = opt_prop ?data ''error''"
    "\<not> usable (opt_prop ?data ''message'') \<and> \<not> usable (opt_prop ?data ''error'')
       \<and> body_text r \<noteq> [] \<longrightarrow> ?msg = JStr (body_text r)"
    "\<not> usable (opt_prop ?data ''message'') \<and> \<not> usable (opt_prop ?data ''error'')
       \<and> body_text r = [] \<longrightarrow> ?msg = JStr (''HTTP '' @ num (status r))"
    by (auto simp: extract_message_def usable_def split: option.splits)
  have guide:
    "status r = 401 \<longrightarrow> error_message (status r) t =
       ''Authentication failed: '' @ t @ ''. Check CURSOR_API_KEY.''"
    "status r = 403 \<longrightarrow> error_message (status r) t =
       ''Forbidden: '' @ t @ ''. Ensure the GitHub App is installed on this repo.''"
    "status r = 404 \<longrightarrow> error_message (status r) t =
       ''Not found: '' @ t @ ''. Agent may have been deleted.''"
    "status r = 429 \<longrightarrow> error_message (status r) t =
       ''Rate limit exceeded: '' @ t @ ''. Back off and retry.''"
    "status r \<notin> {401, 403, 404, 429} \<longrightarrow> error_message (status r) t = t" for t
    by (simp_all add: error_message_def)
  have conv: "\<forall>s. ?msg = JStr s \<longrightarrow> ToString num str ?msg = Inr s"
    by simp
  show ?thesis
    apply (rule exI [of _ ?msg])
    apply (rule exI [of _ ?data])
    apply (intro conjI allI impI)
    apply (rule refl)
    apply (rule pick(1) [rule_format], assumption)
    apply (rule pick(2) [rule_format], assumption)
    apply (rule pick(3) [rule_format], assumption)
    apply (rule pick(4) [rule_format], assumption)
    apply (rule conv [rule_format], assumption)
    apply (rule run, assumption)
    apply (rule guide(1) [rule_format], assumption)
    apply (rule guide(2) [rule_format], assumption)
    apply (rule guide(3) [rule_format], assumption)
    apply (rule guide(4) [rule_format], assumption)
    apply (rule guide(5) [rule_format], assumption)
    done
qed

theorem request_failure_witness:
  "request (demo_net 404 message_body) demo_parse demo_num demo_str ''key'' ''GET'' ''/v0/agents/a1'' None
     = (Inl (HttpError ''Not found: gone. Agent may have been deleted.'' 404
               (JObj [(''message'', JStr ''gone'')])),
        [\<lparr>call_method = ''GET'', call_url = BASE_URL @ ''/v0/agents/a1'', call_key = ''key'',
          call_body = None\<rparr>])"
proof -
  let ?r = "\<lparr>status = 404, body_text = message_body\<rparr>"
  have net: "demo_net 404 message_body
      \<lparr>call_method = ''GET'', call_url = BASE_URL @ ''/v0/agents/a1'', call_key = ''key'',
        call_body = None\<rparr> = Resp ?r"
    by (simp add: demo_net_def)
  have bad: "\<not> ok ?r"
    by (simp add: ok_def)
  have data: "(case demo_parse (body_text ?r) of None \<Rightarrow> JNull | Some d \<Rightarrow> d)
      = JObj [(''message'', JStr ''gone'')]"
    by (simp add: demo_parse_def message_body_def error_body_def)
  note T = request_failure
    [where net = "demo_net 404 message_body" and parse = demo_parse and num = demo_num
       and str = demo_str and r = ?r and m = "''GET''" and path = "''/v0/agents/a1''"
       and key = "''key''" and body = None, OF net bad]
  from T show ?thesis
    unfolding data by (elim exE conjE) (simp add: usable_def error_message_def)
qed

section \<open>Validation of the webhook secret\<close>

text \<open>
  C4, as the claim states it, fails: a short secret supplied without a webhook URL is
  not validated; the request is sent (without any webhook block).
\<close>

theorem launchAgent_secret_without_url_counterexample:
  "launchAgent (demo_net 200 message_body) demo_parse demo_num demo_str ''key''
       (demo_params\<lparr>webhookSecret := Some ''short''\<rparr>)
     = (Inr (JObj [(''message'', JStr ''gone'')]),
        [\<lparr>call_method = ''POST'', call_url = ''https://api.cursor.com/v0/agents'',
          call_key = ''key'',
          call_body = Some (JObj [(''prompt'', JObj [(''text'', JStr ''fix the build'')]),
                                  (''source'', JObj [(''repository'', JStr ''https://github.com/o/r'')])])\<rparr>])"
  by (simp add: launchAgent_def webhook_option_def demo_params_def target_options_def flag_def
      request_def demo_net_def demo_parse_def message_body_def error_body_def ok_def BASE_URL_def)

text \<open>
  C4, amended. When a webhook URL is given (present and not empty) and the secret
  given with it is not empty and shorter than 32 characters, \<^verbatim>\<open>launchAgent\<close> throws the
  validation error and issues no HTTP call.
\<close>

theorem launchAgent_short_secret:
  assumes "given (webhookUrl p)"
    and "webhookSecret p = Some s"
    and "s \<noteq> []"
    and "length s < 32"
  shows "launchAgent net parse num str key p
     = (Inl (ValidationError ''Webhook secret must be at least 32 characters''), [])"
  using assms by (simp add: launchAgent_def webhook_option_def)

theorem launchAgent_short_secret_witness:
  "launchAgent (demo_net 200 message_body) demo_parse demo_num demo_str ''key''
       (demo_params\<lparr>webhookUrl := Some ''https://hook.example/x'', webhookSecret := Some ''short''\<rparr>)
     = (Inl (ValidationError ''Webhook secret must be at least 32 characters''), [])"
  using launchAgent_short_secret
    [of "demo_params\<lparr>webhookUrl := Some ''https://hook.example/x'', webhookSecret := Some ''short''\<rparr>"
        "''short''" "demo_net 200 message_body" demo_parse demo_num demo_str "''key''"]
  by simp

section \<open>The result of multi-job polling\<close>

text \<open>
  C2, as the claim states it, holds of the code except where a fetch inside the loop
  succeeds with the payload \<^verbatim>\<open>null\<close>. \<^verbatim>\<open>request\<close> returns \<^verbatim>\<open>null\<close> for a success
  response whose body does not parse; the tick then reads \<^verbatim>\<open>agent.status\<close> of
  \<^verbatim>\<open>null\<close>, and \<^verbatim>\<open>pollAgents\<close> throws a \<^verbatim>\<open>TypeError\<close>, although job A had been
  stored in the same tick.
\<close>

theorem pollAgents_null_payload:
  "request (demo_net 200 ''<html>'') demo_parse demo_num demo_str ''key'' ''GET'' ''/v0/agents/B'' None
     = (Inr JNull,
        [\<lparr>call_method = ''GET'', call_url = ''https://api.cursor.com/v0/agents/B'',
          call_key = ''key'', call_body = None\<rparr>])
   \<and> pollAgents half_env [''A'', ''B''] 1000 2500
     = Some (Inl TypeError,
             [Fetched ''A'' (Fulfilled (job ''A'' ''FINISHED'')),
              Fetched ''B'' (Fulfilled JNull),
              Resolved ''A'' (job ''A'' ''FINISHED'')])"
proof
  show "request (demo_net 200 ''<html>'') demo_parse demo_num demo_str ''key'' ''GET''
      ''/v0/agents/B'' None
     = (Inr JNull,
        [\<lparr>call_method = ''GET'', call_url = ''https://api.cursor.com/v0/agents/B'',
          call_key = ''key'', call_body = None\<rparr>])"
    by (simp add: request_def demo_net_def demo_parse_def error_body_def message_body_def
        ok_def BASE_URL_def)
  show "pollAgents half_env [''A'', ''B''] 1000 2500
     = Some (Inl TypeError,
             [Fetched ''A'' (Fulfilled (job ''A'' ''FINISHED'')),
              Fetched ''B'' (Fulfilled JNull),
              Resolved ''A'' (job ''A'' ''FINISHED'')])"
    by code_simp
qed

text \<open>
  Away from that defect the result is as the specification says. Once the clock
  reaches the deadline at some reading, and as long as no fetch is fulfilled with
  \<^verbatim>\<open>null\<close>, \<^verbatim>\<open>pollAgents\<close> returns normally, whatever was resolved or rejected: the
  list has one entry per requested ID, in request order; entry \<open>i\<close> is the placeholder
  for \<open>ids ! i\<close> or a record that a fetch of \<open>ids ! i\<close> returned; equal IDs get equal
  entries.
\<close>

lemma from_fetches_loop:
  assumes "pollLoop e d ids iv st = Some (r, st')" and "from_fetches st"
  shows "from_fetches st'"
  using assms
proof (rule pollLoop_invariant)
  show "from_fetches (ticked e ids s)" if "from_fetches s" for s
    using that by (rule from_fetches_ticked)
  show "from_fetches (thrown e ids s n)" if "from_fetches s" for s n
    using that unfolding from_fetches_def
    by (auto dest!: map_of_fold_update_cases in_zip_take simp: in_terminal_pairs
        intro: Fetched_in_map2)
qed (simp_all add: from_fetches_def)

lemma pollAgents_one_entry_per_id:
  assumes "0 < K" and "clock e 0 + timeoutMs \<le> clock e K"
    and "\<forall>n k. getAgent e n k \<noteq> Fulfilled JNull"
  shows "\<exists>res tr. pollAgents e ids intervalMs timeoutMs = Some (Inr res, tr)
     \<and> length res = length ids
     \<and> (\<forall>i<length ids. res ! i = placeholder (ids ! i)
            \<or> Fetched (ids ! i) (Fulfilled (res ! i)) \<in> set tr)
     \<and> (\<forall>i<length ids. \<forall>j<length ids. ids ! i = ids ! j \<longrightarrow> res ! i = res ! j)"
proof -
  from assms obtain st where
    loop: "pollLoop e (clock e 0 + timeoutMs) ids intervalMs init_state = Some (None, st)"
    using pollLoop_returns_nonnull [of init_state K e "clock e 0 + timeoutMs" ids intervalMs]
    by auto
  have "from_fetches init_state"
    by (simp add: from_fetches_def)
  with loop have "from_fetches st"
    by (rule from_fetches_loop)
  then have inv: "from_fetches (swept e ids st)"
    by (rule from_fetches_swept)
  let ?res = "map (entry (results (swept e ids st))) ids"
  have "?res ! i = placeholder (ids ! i)
      \<or> Fetched (ids ! i) (Fulfilled (?res ! i)) \<in> set (trace (swept e ids st))"
    if "i < length ids" for i
    using that inv unfolding from_fetches_def entry_def
    by (auto split: option.splits)
  then show ?thesis
    using pollAgents_of_loop [OF loop] by auto
qed

section \<open>The single-job wait\<close>

lemma pollAgentLoop_step:
  "pollAgentLoop e d k iv st =
     (if clock e (reads st) < d then
        (case getAgent e (fetches st) k of
           Rejected err \<Rightarrow> Some (Inl err, snd (fetchOne e k (st\<lparr>reads := Suc (reads st)\<rparr>)))
         | Fulfilled agent \<Rightarrow>
             (case get_prop agent ''status'' of
                Inl err \<Rightarrow> Some (Inl err, snd (fetchOne e k (st\<lparr>reads := Suc (reads st)\<rparr>)))
              | Inr s \<Rightarrow>
                  if TERMINAL_STATUSES_has s
                  then Some (Inr (Some agent), snd (fetchOne e k (st\<lparr>reads := Suc (reads st)\<rparr>)))
                  else pollAgentLoop e d k iv
                         (sleep iv (snd (fetchOne e k (st\<lparr>reads := Suc (reads st)\<rparr>))))))
      else Some (Inr None, st\<lparr>reads := Suc (reads st)\<rparr>))"
  by (subst pollAgentLoop.simps) (simp add: Let_def fetchOne_def split: outcome.split sum.split)

lemma pollAgentLoop_waiting:
  assumes "\<forall>j<m. clock e (Suc j) < d
      \<and> (\<exists>v. getAgent e j k = Fulfilled v \<and> v \<noteq> JNull \<and> \<not> is_terminal v)"
  shows "pollAgentLoop e d k iv init_state = pollAgentLoop e d k iv (after e k iv m)"
  using assms
proof (induction m)
  case 0
  show ?case by (simp add: after_def init_state_def)
next
  case (Suc m)
  from Suc.prems have now: "clock e (Suc m) < d"
    and "\<exists>v. getAgent e m k = Fulfilled v \<and> v \<noteq> JNull \<and> \<not> is_terminal v"
    by auto
  then obtain v s where v: "getAgent e m k = Fulfilled v" "get_prop v ''status'' = Inr s"
      "\<not> TERMINAL_STATUSES_has s"
    by (auto simp: is_terminal_def dest!: status_readable)
  have "pollAgentLoop e d k iv init_state = pollAgentLoop e d k iv (after e k iv m)"
    using Suc.prems by (intro Suc.IH) auto
  also have "\<dots> = pollAgentLoop e d k iv (after e k iv (Suc m))"
    by (subst pollAgentLoop_step) (simp add: after_def now v fetchOne_def sleep_def)
  finally show ?case .
qed

text \<open>
  C5, as the claim states it, holds of the code except where the status seen by the
  final check has no text. The timeout error is built with a template literal over
  \<^verbatim>\<open>agent.status\<close>; for a status that is an object with a \<^verbatim>\<open>toString\<close> property of
  its own the conversion throws, and \<^verbatim>\<open>pollAgent\<close> ends with a \<^verbatim>\<open>TypeError\<close> in
  place of the timeout error.
\<close>

theorem pollAgent_status_without_text:
  "pollAgent odd_env demo_num demo_str ''A'' 1000 1500
     = Some (Inl TypeError,
             [Fetched ''A'' (Fulfilled (odd_job ''A'')), Slept 1000,
              Fetched ''A'' (Fulfilled (odd_job ''A''))])
   \<and> \<not> is_terminal (odd_job ''A'')
   \<and> get_prop (odd_job ''A'') ''status'' = Inr (Some (JObj [(''toString'', JNum 1)]))"
  by code_simp

text \<open>
  Away from that defect the wait is as the specification says. Let the first \<open>m\<close>
  checks of \<^verbatim>\<open>pollAgent\<close> happen before the deadline and each observe a non-terminal
  status, and let the next fetch return the record \<open>v\<close> with status \<open>s\<close>. If \<open>v\<close> is
  terminal, \<^verbatim>\<open>pollAgent\<close> returns \<open>v\<close> at once, whether that fetch is a check of the
  loop or the final check after the deadline. If \<open>v\<close> is not terminal, the deadline has
  been reached and \<open>s\<close> has the text \<open>t\<close>, that fetch is the final check and
  \<^verbatim>\<open>pollAgent\<close> throws the timeout error carrying \<open>t\<close>. Either way the session consists
  of the \<open>m\<close> checks, each followed by a sleep, and exactly one more fetch.
\<close>

lemma pollAgent_outcome:
  assumes before: "\<forall>j<m. clock e (Suc j) < clock e 0 + timeoutMs
      \<and> (\<exists>v. getAgent e j k = Fulfilled v \<and> v \<noteq> JNull \<and> \<not> is_terminal v)"
    and last: "getAgent e m k = Fulfilled v" "get_prop v ''status'' = Inr s"
    and stop: "is_terminal v \<or> \<not> clock e (Suc m) < clock e 0 + timeoutMs"
    and text_of: "status_text num str s = Inr t"
  shows "\<exists>tr. pollAgent e num str k intervalMs timeoutMs =
        Some (if is_terminal v then Inr v else Inl (PollTimeout k timeoutMs t), tr)
     \<and> tr = waiting e k intervalMs m @ [Fetched k (Fulfilled v)]
     \<and> length (filter is_fetch tr) = Suc m \<and> length (filter is_sleep tr) = m"
proof -
  let ?d = "clock e 0 + timeoutMs"
  have loop: "pollAgentLoop e ?d k intervalMs init_state
      = pollAgentLoop e ?d k intervalMs (after e k intervalMs m)"
    using before by (rule pollAgentLoop_waiting)
  have counts: "length (filter is_fetch (waiting e k intervalMs m)) = m
      \<and> length (filter is_sleep (waiting e k intervalMs m)) = m"
    by (induction m) auto
  have run: "pollAgent e num str k intervalMs timeoutMs =
      Some (if is_terminal v then Inr v else Inl (PollTimeout k timeoutMs t),
            waiting e k intervalMs m @ [Fetched k (Fulfilled v)])"
  proof (cases "clock e (Suc m) < ?d")
    case True
    with stop have "is_terminal v" by simp
    with last have "TERMINAL_STATUSES_has s"
      by (simp add: is_terminal_def)
    with True last have "pollAgentLoop e ?d k intervalMs (after e k intervalMs m)
        = Some (Inr (Some v), snd (fetchOne e k ((after e k intervalMs m)\<lparr>reads := Suc (Suc m)\<rparr>)))"
      by (subst pollAgentLoop_step) (simp add: after_def)
    with loop \<open>is_terminal v\<close> last show ?thesis
      by (simp add: pollAgent_def after_def fetchOne_def)
  next
    case False
    then have "pollAgentLoop e ?d k intervalMs (after e k intervalMs m)
        = Some (Inr None, (after e k intervalMs m)\<lparr>reads := Suc (Suc m)\<rparr>)"
      by (subst pollAgentLoop_step) (simp add: after_def)
    with loop last text_of show ?thesis
      by (simp add: pollAgent_def finalCheck_def after_def fetchOne_def is_terminal_def)
  qed
  with counts show ?thesis
    by simp
qed

section \<open>Jobs that are all terminal at their first fetch\<close>

lemma update_absent: "k \<notin> fst ` set rs \<Longrightarrow> AList.update k v rs = rs @ [(k, v)]"
  by (induction rs) auto

lemma fold_update_fresh:
  "distinct (map fst ps) \<Longrightarrow> fst ` set ps \<inter> fst ` set rs = {} \<Longrightarrow>
   fold (\<lambda>(k, v). AList.update k v) ps rs = rs @ ps"
proof (induction ps arbitrary: rs)
  case Nil
  then show ?case by simp
next
  case (Cons p ps)
  obtain k v where p: "p = (k, v)" by (cases p)
  from Cons.prems have fresh: "k \<notin> fst ` set rs"
    by (auto simp: p)
  have "fold (\<lambda>(k, v). AList.update k v) ps (rs @ [(k, v)]) = (rs @ [(k, v)]) @ ps"
    using Cons.prems by (intro Cons.IH) (auto simp: p)
  then show ?case
    by (simp add: p update_absent [OF fresh])
qed

lemma all_terminal_pairs:
  assumes "\<forall>i<length ks. \<exists>v. getAgent e (n + i) (ks ! i) = Fulfilled v \<and> is_terminal v"
  shows "\<exists>vs. allSettled e n ks = map Fulfilled vs \<and> length vs = length ks
     \<and> (\<forall>v\<in>set vs. is_terminal v)
     \<and> terminal_pairs ks (allSettled e n ks) = zip ks vs
     \<and> fulfilled_pairs ks (allSettled e n ks) = zip ks vs"
  using assms
proof (induction ks arbitrary: n)
  case Nil
  then show ?case by simp
next
  case (Cons k ks)
  from Cons.prems [rule_format, of 0] obtain v where
    v: "getAgent e n k = Fulfilled v" "is_terminal v"
    by auto
  have "\<forall>i<length ks. \<exists>v. getAgent e (Suc n + i) (ks ! i) = Fulfilled v \<and> is_terminal v"
    using Cons.prems by (auto dest: spec [of _ "Suc i" for i])
  from Cons.IH [OF this] obtain vs where
    vs: "allSettled e (Suc n) ks = map Fulfilled vs" "length vs = length ks"
      "\<forall>v\<in>set vs. is_terminal v"
      "terminal_pairs ks (allSettled e (Suc n) ks) = zip ks vs"
      "fulfilled_pairs ks (allSettled e (Suc n) ks) = zip ks vs"
    by blast
  show ?case
    using v vs
    by (intro exI [of _ "v # vs"]) simp
qed

lemma unresolved_Nil [simp]: "unresolved ids [] = ids"
  by (simp add: unresolved_def has_def)

lemma unresolved_zip:
  "length vs = length ids \<Longrightarrow> unresolved ids (zip ids vs) = []"
  by (simp add: unresolved_def has_def)

lemma entries_zip:
  assumes "distinct ids" and "length vs = length ids" and "\<forall>v\<in>set vs. is_terminal v"
  shows "map (entry (zip ids vs)) ids = vs"
proof (rule nth_equalityI)
  show "length (map (entry (zip ids vs)) ids) = length vs"
    using assms by simp
next
  fix i
  assume "i < length (map (entry (zip ids vs)) ids)"
  then have i: "i < length ids" by simp
  with assms have "map_of (zip ids vs) (ids ! i) = Some (vs ! i)"
    by (simp add: map_of_zip_nth)
  moreover have "truthy (vs ! i)"
    using assms i by (simp add: is_terminal_truthy)
  ultimately show "map (entry (zip ids vs)) ids ! i = vs ! i"
    using i by (simp add: entry_def)
qed

text \<open>
  C7, as the claim states it, holds of the code except on a list that names a job
  twice. Both entries are fetched in the first tick and both fetches return a
  terminal record, but the map then holds one key while the list has two elements:
  the test \<^verbatim>\<open>results.size === ids.length\<close> does not end the loop, and \<^verbatim>\<open>pollAgents\<close>
  sleeps once before the next iteration finds nothing pending.
\<close>

theorem pollAgents_duplicate_ids:
  "pollAgents finished_env [''A'', ''A''] 1000 2500 =
     Some (Inr [job ''A'' ''FINISHED'', job ''A'' ''FINISHED''],
           [Fetched ''A'' (Fulfilled (job ''A'' ''FINISHED'')),
            Fetched ''A'' (Fulfilled (job ''A'' ''FINISHED'')),
            Resolved ''A'' (job ''A'' ''FINISHED''),
            Resolved ''A'' (job ''A'' ''FINISHED''),
            Slept 1000])
   \<and> getAgent finished_env 0 ''A'' = Fulfilled (job ''A'' ''FINISHED'')
   \<and> getAgent finished_env 1 ''A'' = Fulfilled (job ''A'' ''FINISHED'')
   \<and> is_terminal (job ''A'' ''FINISHED'')"
  by code_simp

text \<open>
  On a list without duplicates the code does what the specification says. For every
  list of distinct IDs in which the \<open>i\<close>-th fetch of the session, the one for
  \<open>ids ! i\<close>, is fulfilled with a terminal record, \<^verbatim>\<open>pollAgents\<close> returns those records
  in order after exactly one fetch per ID and no sleep.
\<close>

lemma pollAgents_all_terminal_at_once:
  assumes "distinct ids"
    and "\<forall>i<length ids. \<exists>v. getAgent e i (ids ! i) = Fulfilled v \<and> is_terminal v"
  shows "\<exists>vs tr. allSettled e 0 ids = map Fulfilled vs \<and> (\<forall>v\<in>set vs. is_terminal v)
     \<and> pollAgents e ids intervalMs timeoutMs = Some (Inr vs, tr)
     \<and> tr = map2 Fetched ids (map Fulfilled vs) @ map2 Resolved ids vs
     \<and> length (filter is_fetch tr) = length ids \<and> filter is_sleep tr = []"
proof -
  let ?d = "clock e 0 + timeoutMs"
  let ?cs = "allSettled e 0 ids"
  from all_terminal_pairs [of ids e 0] assms(2) obtain vs where
    vs: "?cs = map Fulfilled vs" "length vs = length ids" "\<forall>v\<in>set vs. is_terminal v"
    and tp: "terminal_pairs ids ?cs = zip ids vs"
    and fp: "fulfilled_pairs ids ?cs = zip ids vs"
    by auto
  let ?tr = "map2 Fetched ids ?cs @ map (\<lambda>(k, v). Resolved k v) (zip ids vs)"
  have fresh: "fold (\<lambda>(k, v). AList.update k v) (zip ids vs) [] = zip ids vs"
    using assms(1) vs(2) fold_update_fresh [of "zip ids vs" "[]"] by simp
  have nonnull: "Fulfilled JNull \<notin> set ?cs"
    using vs(1,3) by auto
  have "\<exists>st. pollLoop e ?d ids intervalMs init_state = Some (None, st)
      \<and> results (swept e ids st) = zip ids vs \<and> trace (swept e ids st) = ?tr"
  proof (cases "clock e 1 < ?d \<and> ids \<noteq> []")
    case True
    let ?st = "ticked e ids init_state"
    have res: "results ?st = zip ids vs"
      by (simp add: tp fresh)
    have tr: "trace ?st = ?tr"
      by (simp add: tp)
    have "pollLoop e ?d ids intervalMs init_state
        = (if length (results ?st) = length ids then Some (None, ?st)
           else pollLoop e ?d ids intervalMs (sleep intervalMs ?st))"
      using True nonnull by (intro pollLoop_tick) simp_all
    then have loop: "pollLoop e ?d ids intervalMs init_state = Some (None, ?st)"
      by (simp only: res length_zip vs(2) min.idem refl if_True)
    have none: "unresolved ids (results ?st) = []"
      by (simp only: res unresolved_zip [OF vs(2)])
    have sw: "swept e ids ?st = ?st"
      unfolding swept_def none by (simp add: fetchAll_def)
    have "results (swept e ids ?st) = zip ids vs"
      by (simp only: sw res)
    moreover have "trace (swept e ids ?st) = ?tr"
      by (simp only: sw tr)
    ultimately show ?thesis
      using loop by blast
  next
    case False
    let ?st = "init_state\<lparr>reads := Suc (reads init_state)\<rparr>"
    from False have "pollLoop e ?d ids intervalMs init_state = Some (None, ?st)"
      by (intro pollLoop_done) auto
    moreover have "results (swept e ids ?st) = zip ids vs"
      by (simp add: fp fresh)
    moreover have "trace (swept e ids ?st) = ?tr"
      by (simp add: fp)
    ultimately show ?thesis by blast
  qed
  then obtain st where
    st: "pollLoop e ?d ids intervalMs init_state = Some (None, st)"
      "results (swept e ids st) = zip ids vs" "trace (swept e ids st) = ?tr"
    by blast
  have shape: "?tr = map2 Fetched ids (map Fulfilled vs) @ map2 Resolved ids vs"
    by (simp only: vs(1))
  have run: "pollAgents e ids intervalMs timeoutMs = Some (Inr vs, ?tr)"
    unfolding pollAgents_of_loop [OF st(1)] st(2,3) entries_zip [OF assms(1) vs(2,3)] ..
  have fetches: "length (filter is_fetch ?tr) = length ids"
    by (simp add: filter_map comp_def case_prod_unfold)
  have sleeps: "filter is_sleep ?tr = []"
    by (simp add: filter_map comp_def case_prod_unfold filter_empty_conv)
  from vs(1,3) run shape fetches sleeps show ?thesis
    by metis
qed

section \<open>Resolved jobs are not fetched again\<close>

lemma resolved_in_simps [simp]:
  "resolved_in [] = {}"
  "resolved_in (Resolved k v # evs) = insert k (resolved_in evs)"
  "resolved_in (Fetched k c # evs) = resolved_in evs"
  "resolved_in (Slept ms # evs) = resolved_in evs"
  "resolved_in (xs @ ys) = resolved_in xs \<union> resolved_in ys"
  by (auto simp: resolved_in_def)

lemma fetched_in_simps [simp]:
  "fetched_in [] = {}"
  "fetched_in (Fetched k c # evs) = insert k (fetched_in evs)"
  "fetched_in (Resolved k v # evs) = fetched_in evs"
  "fetched_in (Slept ms # evs) = fetched_in evs"
  "fetched_in (xs @ ys) = fetched_in xs \<union> fetched_in ys"
  by (auto simp: fetched_in_def)

lemma ordered_append:
  "ordered (xs @ ys) \<longleftrightarrow> ordered xs \<and> ordered ys \<and> resolved_in xs \<inter> fetched_in ys = {}"
  by (induction xs rule: ordered.induct) auto

lemma ordered_split:
  "ordered tr \<Longrightarrow> tr = xs @ Resolved k v # ys \<Longrightarrow> k \<notin> fetched_in ys"
  by (simp add: ordered_append)

lemma fetches_only [simp]:
  "resolved_in (map2 Fetched ks cs) = {}" "ordered (map2 Fetched ks cs)"
  "fetched_in (map2 Fetched ks cs) \<subseteq> set ks"
proof -
  show "resolved_in (map2 Fetched ks cs) = {}"
    by (auto simp: resolved_in_def)
  show "ordered (map2 Fetched ks cs)"
    by (induction ks arbitrary: cs) (auto simp: zip_Cons1 split: list.splits)
  show "fetched_in (map2 Fetched ks cs) \<subseteq> set ks"
    by (auto simp: fetched_in_def dest: set_zip_leftD)
qed

lemma resolves_only [simp]:
  "fetched_in (map (\<lambda>(k, v). Resolved k v) ps) = {}"
  "ordered (map (\<lambda>(k, v). Resolved k v) ps)"
  "resolved_in (map (\<lambda>(k, v). Resolved k v) ps) = fst ` set ps"
proof -
  show f: "fetched_in (map (\<lambda>(k, v). Resolved k v) ps) = {}" for ps
    by (auto simp: fetched_in_def)
  show "ordered (map (\<lambda>(k, v). Resolved k v) ps)"
    by (induction ps) (auto simp: f)
  show "resolved_in (map (\<lambda>(k, v). Resolved k v) ps) = fst ` set ps"
    by (force simp: resolved_in_def)
qed

lemma fetched_unresolved:
  "k \<in> fetched_in (map2 Fetched (unresolved ids rs) cs) \<Longrightarrow> \<not> has rs k"
  by (auto simp: fetched_in_def unresolved_def dest!: set_zip_leftD)

lemma no_refetch_ticked: "no_refetch s \<Longrightarrow> no_refetch (ticked e ids s)"
  unfolding no_refetch_def
  by (auto simp: ordered_append has_fold_update dest!: fetched_unresolved)

lemma no_refetch_thrown: "no_refetch s \<Longrightarrow> no_refetch (thrown e ids s n)"
  unfolding no_refetch_def
  by (auto simp: ordered_append has_fold_update dest!: fetched_unresolved)

lemma no_refetch_swept: "no_refetch s \<Longrightarrow> no_refetch (swept e ids s)"
  unfolding no_refetch_def
  by (auto simp: ordered_append has_fold_update dest!: fetched_unresolved)

lemma no_refetch_loop:
  assumes "pollLoop e d ids iv st = Some (r, st')" and "no_refetch st"
  shows "no_refetch st'"
  using assms
proof (rule pollLoop_invariant)
  show "no_refetch (ticked e ids s)" if "no_refetch s" for s
    using that by (rule no_refetch_ticked)
  show "no_refetch (thrown e ids s n)" if "no_refetch s" for s n
    using that by (rule no_refetch_thrown)
qed (simp_all add: no_refetch_def ordered_append)

lemma all_resolved: "(\<forall>k\<in>set ids. has rs k) \<Longrightarrow> unresolved ids rs = []"
  by (simp add: unresolved_def filter_empty_conv)

lemma team_run:
  "pollAgents team_env [''A'', ''B'', ''C''] 1000 2500 = Some (Inr team_result, team_trace)"
  by code_simp

lemma team_nonnull: "\<forall>n k. getAgent team_env n k \<noteq> Fulfilled JNull"
  by (simp add: team_env_def job_def)

text \<open>
  C8. In the trace of a \<^verbatim>\<open>pollAgents\<close> session, whether it returned or threw, no fetch
  of an ID follows a \<^verbatim>\<open>results.set\<close> of that ID: ticks and the final sweep fetch only
  IDs not yet in the map. From a state whose map holds every requested ID, the loop
  exits at once and the final sweep does nothing: no fetch, no sleep, only the clock
  is read.
\<close>

theorem pollAgents_never_refetches:
  "(pollAgents e ids intervalMs timeoutMs = Some (r, xs @ Resolved k v # ys) \<longrightarrow>
      Fetched k c \<notin> set ys)
   \<and> ((\<forall>k\<in>set ids. has (results st) k) \<longrightarrow>
        pollLoop e d ids intervalMs st = Some (None, st\<lparr>reads := Suc (reads st)\<rparr>)
      \<and> finalSweep e ids (st\<lparr>reads := Suc (reads st)\<rparr>) = (None, st\<lparr>reads := Suc (reads st)\<rparr>))"
proof (intro conjI impI)
  assume run: "pollAgents e ids intervalMs timeoutMs = Some (r, xs @ Resolved k v # ys)"
  from pollAgents_Some [OF run] obtain r' s where
    loop: "pollLoop e (clock e 0 + timeoutMs) ids intervalMs init_state = Some (r', s)"
    and tr: "xs @ Resolved k v # ys = trace s \<or> xs @ Resolved k v # ys = trace (swept e ids s)"
    by blast
  have "no_refetch init_state"
    by (simp add: no_refetch_def)
  with loop have inv: "no_refetch s"
    by (rule no_refetch_loop)
  then have "no_refetch (swept e ids s)"
    by (rule no_refetch_swept)
  with inv tr have "ordered (xs @ Resolved k v # ys)"
    by (auto simp: no_refetch_def)
  then have "k \<notin> fetched_in ys"
    by (rule ordered_split) simp
  then show "Fetched k c \<notin> set ys"
    by (auto simp: fetched_in_def)
next
  assume all: "\<forall>k\<in>set ids. has (results st) k"
  then have none: "unresolved ids (results st) = []"
    by (rule all_resolved)
  then show "pollLoop e d ids intervalMs st = Some (None, st\<lparr>reads := Suc (reads st)\<rparr>)"
    by (simp add: pollLoop_done)
  from none show "finalSweep e ids (st\<lparr>reads := Suc (reads st)\<rparr>)
      = (None, st\<lparr>reads := Suc (reads st)\<rparr>)"
    by (simp add: finalSweep_def)
qed

theorem pollAgents_never_refetches_witness:
  "pollAgents team_env [''A'', ''B'', ''C''] 1000 2500 =
     Some (Inr team_result,
           [Fetched ''A'' (Fulfilled (job ''A'' ''FINISHED'')),
            Fetched ''B'' (Fulfilled (job ''B'' ''RUNNING'')),
            Fetched ''C'' (Rejected (NetworkError ''Network error''))]
           @ Resolved ''A'' (job ''A'' ''FINISHED'')
           # [Slept 1000,
              Fetched ''B'' (Fulfilled (job ''B'' ''FAILED'')),
              Fetched ''C'' (Rejected (NetworkError ''Network error'')),
              Resolved ''B'' (job ''B'' ''FAILED''),
              Slept 1000,
              Fetched ''C'' (Rejected (NetworkError ''Network error''))])
   \<and> Fetched ''A'' (Fulfilled (job ''A'' ''FINISHED''))
       \<notin> set [Slept 1000,
              Fetched ''B'' (Fulfilled (job ''B'' ''FAILED'')),
              Fetched ''C'' (Rejected (NetworkError ''Network error'')),
              Resolved ''B'' (job ''B'' ''FAILED''),
              Slept 1000,
              Fetched ''C'' (Rejected (NetworkError ''Network error''))]
   \<and> has (results one_resolved) ''A''
   \<and> pollLoop finished_env 5000 [''A''] 1000 one_resolved
       = Some (None, one_resolved\<lparr>reads := Suc (reads one_resolved)\<rparr>)
   \<and> finalSweep finished_env [''A''] (one_resolved\<lparr>reads := Suc (reads one_resolved)\<rparr>)
       = (None, one_resolved\<lparr>reads := Suc (reads one_resolved)\<rparr>)"
proof -
  let ?ys = "[Slept 1000,
              Fetched ''B'' (Fulfilled (job ''B'' ''FAILED'')),
              Fetched ''C'' (Rejected (NetworkError ''Network error'')),
              Resolved ''B'' (job ''B'' ''FAILED''),
              Slept 1000,
              Fetched ''C'' (Rejected (NetworkError ''Network error''))]"
  let ?xs = "[Fetched ''A'' (Fulfilled (job ''A'' ''FINISHED'')),
            Fetched ''B'' (Fulfilled (job ''B'' ''RUNNING'')),
            Fetched ''C'' (Rejected (NetworkError ''Network error''))]"
  have run: "pollAgents team_env [''A'', ''B'', ''C''] 1000 2500 =
     Some (Inr team_result, ?xs @ Resolved ''A'' (job ''A'' ''FINISHED'') # ?ys)"
    using team_run by (simp add: team_trace_def)
  have all: "\<forall>k\<in>set [''A'']. has (results one_resolved) k"
    by (simp add: one_resolved_def has_def)
  note T1 = pollAgents_never_refetches
    [where e = team_env and ids = "[''A'', ''B'', ''C'']" and intervalMs = 1000
       and timeoutMs = 2500 and r = "Inr team_result" and xs = ?xs and k = "''A''"
       and v = "job ''A'' ''FINISHED''" and ys = ?ys
       and c = "Fulfilled (job ''A'' ''FINISHED'')", THEN conjunct1, THEN mp, OF run]
  note T2 = pollAgents_never_refetches
    [where e = finished_env and ids = "[''A'']" and intervalMs = 1000 and st = one_resolved
       and d = 5000, THEN conjunct2, THEN mp, OF all]
  have "has (results one_resolved) ''A''"
    using all by simp
  with run T1 T2 show ?thesis
    by (intro conjI) simp_all
qed

section \<open>Sessions seen from the head of the loop\<close>

lemma has_keys: "has rs k \<longleftrightarrow> k \<in> fst ` set rs"
  by (simp add: has_def map_of_eq_None_iff)

lemma pending_iff: "k \<in> set (unresolved ids rs) \<longleftrightarrow> k \<in> set ids \<and> \<not> has rs k"
  by (auto simp: unresolved_def)

lemma distinct_fold_update:
  "distinct (map fst rs) \<Longrightarrow> distinct (map fst (fold (\<lambda>(k, v). AList.update k v) ps rs))"
  by (induction ps arbitrary: rs) (auto simp: distinct_update)

lemma terminal_pairs_keys:
  "k \<in> fst ` set (terminal_pairs (unresolved ids rs) cs) \<Longrightarrow> k \<in> set ids \<and> \<not> has rs k"
  by (auto simp: in_terminal_pairs pending_iff [symmetric] dest!: set_zip_leftD)

lemma terminal_pair_key:
  "(k, v) \<in> set (terminal_pairs (unresolved ids rs) cs) \<Longrightarrow> k \<in> set ids \<and> \<not> has rs k"
  by (auto simp: in_terminal_pairs pending_iff [symmetric] dest!: set_zip_leftD)

lemma fulfilled_pairs_keys:
  "k \<in> fst ` set (fulfilled_pairs (unresolved ids rs) cs) \<Longrightarrow> k \<in> set ids \<and> \<not> has rs k"
  by (auto simp: in_fulfilled_pairs pending_iff [symmetric] dest!: set_zip_leftD)

text \<open>The keys of the map are requested IDs, each held once.\<close>

lemma heads_keys:
  assumes "heads e d ids iv s"
  shows "fst ` set (results s) \<subseteq> set ids \<and> distinct (map fst (results s))"
  using assms
proof (induction rule: heads.induct)
  case head_init
  show ?case by simp
next
  case (head_next s)
  have "k \<in> set ids" if "has (results (ticked e ids s)) k" for k
    using that head_next.IH unfolding ticked_fields has_fold_update
    by (auto simp: has_keys dest: terminal_pair_key)
  then have "fst ` set (results (sleep iv (ticked e ids s))) \<subseteq> set ids"
    unfolding sleep_fields has_keys by blast
  moreover have "distinct (map fst (results (sleep iv (ticked e ids s))))"
    using head_next.IH by (simp add: distinct_fold_update)
  ultimately show ?case by blast
qed

lemma not_full:
  assumes "fst ` set rs \<subseteq> set ids" and "distinct (map fst rs)"
    and "x \<in> set ids" and "\<not> has rs x"
  shows "length rs < length ids"
proof -
  have "length rs = card (fst ` set rs)"
    using assms(2) by (metis distinct_card length_map set_map)
  also have "fst ` set rs \<subseteq> set ids - {x}"
    using assms(1,4) by (auto simp: has_keys)
  then have "card (fst ` set rs) \<le> card (set ids - {x})"
    by (intro card_mono) auto
  also have "\<dots> < card (set ids)"
    using assms(3) by (intro card_Diff1_less) auto
  also have "\<dots> \<le> length ids"
    by (rule card_length)
  finally show ?thesis .
qed

text \<open>The session is the rest of the loop from any of its head states.\<close>

lemma heads_loop:
  assumes "heads e d ids iv s"
  shows "pollLoop e d ids iv init_state = pollLoop e d ids iv s"
  using assms
proof (induction rule: heads.induct)
  case head_init
  show ?case by simp
next
  case (head_next s)
  then show ?case
    by (simp add: pollLoop_tick del: ticked_fields)
qed

lemma loop_trace:
  assumes "pollLoop e d ids iv st = Some (r, st')"
  shows "\<exists>zs. trace st' = trace st @ zs"
  using assms
proof (rule pollLoop_invariant)
  show "\<exists>zs. trace st = trace st @ zs"
    by simp
qed auto

lemma pollAgents_cases:
  assumes "pollAgents e ids iv tmo = Some (r, tr)"
  shows "\<exists>r' st. pollLoop e (clock e 0 + tmo) ids iv init_state = Some (r', st)
     \<and> ((\<exists>err. r' = Some err \<and> r = Inl err \<and> tr = trace st)
        \<or> r' = None \<and> r = Inr (map (entry (results (swept e ids st))) ids)
            \<and> tr = trace (swept e ids st))"
proof (cases "pollLoop e (clock e 0 + tmo) ids iv init_state")
  case None
  with assms show ?thesis
    by (simp add: pollAgents_def)
next
  case (Some y)
  obtain r' st where y: "y = (r', st)"
    by (cases y)
  with Some assms show ?thesis
    by (cases r') (auto simp: pollAgents_def finalSweep_eq)
qed

text \<open>
  Whatever a session returns or throws, from each of its head states on it first
  fetched every ID pending there: in the tick that starts there, or in the final sweep
  when the deadline has passed.
\<close>

lemma session_from_head:
  assumes head: "heads e (clock e 0 + tmo) ids iv s"
    and run: "pollAgents e ids iv tmo = Some (r, tr)"
  shows "\<exists>zs. tr = trace s @ map2 Fetched (unresolved ids (results s))
                              (allSettled e (fetches s) (unresolved ids (results s))) @ zs"
proof -
  let ?d = "clock e 0 + tmo"
  let ?U = "unresolved ids (results s)"
  let ?cs = "allSettled e (fetches s) ?U"
  from pollAgents_cases [OF run] heads_loop [OF head] obtain r' st where
    loop: "pollLoop e ?d ids iv s = Some (r', st)"
    and tr: "(\<exists>err. r' = Some err \<and> tr = trace st)
        \<or> r' = None \<and> tr = trace (swept e ids st)"
    by auto
  have ext: "\<exists>zs. tr = trace st @ zs"
    using tr by auto
  show ?thesis
  proof (cases "clock e (reads s) < ?d \<and> ?U \<noteq> []")
    case False
    then have "pollLoop e ?d ids iv s = Some (None, s\<lparr>reads := Suc (reads s)\<rparr>)"
      by (intro pollLoop_done) auto
    with loop tr show ?thesis
      by auto
  next
    case True
    from recordTerminal_tick_cases [of e s ids] show ?thesis
    proof
      assume A: "Fulfilled JNull \<notin> set ?cs
        \<and> recordTerminal ?U ?cs (fetched e ids s) = (None, ticked e ids s)"
      show ?thesis
      proof (cases "length (results (ticked e ids s)) = length ids")
        case full: True
        with True A have "pollLoop e ?d ids iv s = Some (None, ticked e ids s)"
          by (simp add: pollLoop_tick del: ticked_fields)
        with loop tr show ?thesis
          by auto
      next
        case notfull: False
        with True A have "pollLoop e ?d ids iv s
            = pollLoop e ?d ids iv (sleep iv (ticked e ids s))"
          by (simp add: pollLoop_tick del: ticked_fields)
        with loop obtain zs where "trace st = trace (sleep iv (ticked e ids s)) @ zs"
          by (auto dest: loop_trace)
        with ext show ?thesis
          by auto
      qed
    next
      assume "\<exists>n<length ?U. ?cs ! n = Fulfilled JNull
        \<and> recordTerminal ?U ?cs (fetched e ids s) = (Some TypeError, thrown e ids s n)"
      then obtain n where
        "recordTerminal ?U ?cs (fetched e ids s) = (Some TypeError, thrown e ids s n)"
        by blast
      with True have "pollLoop e ?d ids iv s = Some (Some TypeError, thrown e ids s n)"
        by (subst pollLoop_step) simp
      with loop tr show ?thesis
        by auto
    qed
  qed
qed

text \<open>
  A pending job none of whose fetches in a tick yields a terminal record is pending
  at the next head of the loop, which the session reaches after one sleep.
\<close>

lemma not_stored_by_tick:
  assumes "\<forall>j<length (unresolved ids (results s)). unresolved ids (results s) ! j = x \<longrightarrow>
      \<not> (\<exists>w. allSettled e (fetches s) (unresolved ids (results s)) ! j = Fulfilled w
            \<and> is_terminal w)"
  shows "x \<notin> fst ` set (terminal_pairs (unresolved ids (results s))
            (allSettled e (fetches s) (unresolved ids (results s))))"
proof
  let ?U = "unresolved ids (results s)"
  let ?cs = "allSettled e (fetches s) ?U"
  assume "x \<in> fst ` set (terminal_pairs ?U ?cs)"
  then obtain v where "(x, Fulfilled v) \<in> set (zip ?U ?cs)" "is_terminal v"
    by (auto simp: in_terminal_pairs)
  then obtain j where "j < length ?U" "?U ! j = x" "?cs ! j = Fulfilled v"
    by (auto simp: in_set_zip)
  with assms \<open>is_terminal v\<close> show False
    by blast
qed

lemma still_pending:
  assumes head: "heads e d ids iv s"
    and tick: "clock e (reads s) < d"
      "Fulfilled JNull \<notin> set (allSettled e (fetches s) (unresolved ids (results s)))"
    and x: "x \<in> set (unresolved ids (results s))"
    and none: "\<forall>j<length (unresolved ids (results s)). unresolved ids (results s) ! j = x \<longrightarrow>
      \<not> (\<exists>w. allSettled e (fetches s) (unresolved ids (results s)) ! j = Fulfilled w
            \<and> is_terminal w)"
  shows "x \<in> set (unresolved ids (results (sleep iv (ticked e ids s))))"
    and "heads e d ids iv (sleep iv (ticked e ids s))"
    and "pollLoop e d ids iv init_state = pollLoop e d ids iv (sleep iv (ticked e ids s))"
proof -
  let ?U = "unresolved ids (results s)"
  let ?cs = "allSettled e (fetches s) ?U"
  from x have xs: "x \<in> set ids" "\<not> has (results s) x"
    by (simp_all add: pending_iff)
  have "x \<notin> fst ` set (terminal_pairs ?U ?cs)"
    using none by (rule not_stored_by_tick)
  with xs have nothas: "\<not> has (results (ticked e ids s)) x"
    by (simp add: has_fold_update)
  with xs show pend: "x \<in> set (unresolved ids (results (sleep iv (ticked e ids s))))"
    unfolding sleep_fields by (simp only: pending_iff simp_thms)
  have "k \<in> set ids" if "has (results (ticked e ids s)) k" for k
    using that heads_keys [OF head] unfolding ticked_fields has_fold_update
    by (auto simp: has_keys dest: terminal_pair_key)
  then have keys1: "fst ` set (results (ticked e ids s)) \<subseteq> set ids"
    unfolding has_keys by blast
  have keys2: "distinct (map fst (results (ticked e ids s)))"
    using heads_keys [OF head] by (simp add: distinct_fold_update)
  note keys = keys1 keys2
  from not_full [OF keys xs(1) nothas]
  have notfull: "length (results (ticked e ids s)) \<noteq> length ids"
    by simp
  from x have ne: "?U \<noteq> []"
    by auto
  from head tick(1) ne tick(2) notfull
  show next_head: "heads e d ids iv (sleep iv (ticked e ids s))"
    by (rule head_next)
  then show "pollLoop e d ids iv init_state = pollLoop e d ids iv (sleep iv (ticked e ids s))"
    by (rule heads_loop)
qed

text \<open>What a round of stores leaves under a key: the last pair stored for it.\<close>

lemma map_of_rev_last:
  "k \<notin> fst ` set ys \<Longrightarrow> map_of (rev (xs @ (k, v) # ys)) k = Some v"
  by (simp add: map_add_def map_of_eq_None_iff [THEN iffD2])

lemma pairs_split:
  assumes "j < length ks" and "length cs = length ks"
  shows "concat (map f (zip ks cs))
     = concat (map f (zip (take j ks) (take j cs))) @ f (ks ! j, cs ! j)
       @ concat (map f (zip (drop (Suc j) ks) (drop (Suc j) cs)))"
proof -
  have "zip ks cs = take j (zip ks cs) @ zip ks cs ! j # drop (Suc j) (zip ks cs)"
    using assms by (intro id_take_nth_drop) simp
  then have "zip ks cs = zip (take j ks) (take j cs) @ (ks ! j, cs ! j)
      # zip (drop (Suc j) ks) (drop (Suc j) cs)"
    using assms by (simp add: take_zip drop_zip)
  then have "concat (map f (zip ks cs))
      = concat (map f (zip (take j ks) (take j cs) @ (ks ! j, cs ! j)
          # zip (drop (Suc j) ks) (drop (Suc j) cs)))"
    by simp
  then show ?thesis
    by simp
qed

lemma in_zip_drop:
  assumes "(k, c) \<in> set (zip (drop n ks) (drop n cs))"
  shows "\<exists>j'. n \<le> j' \<and> j' < length ks \<and> j' < length cs \<and> ks ! j' = k \<and> cs ! j' = c"
proof -
  from assms obtain i where "i < length (drop n ks)" "i < length (drop n cs)"
    "drop n ks ! i = k" "drop n cs ! i = c"
    by (auto simp: in_set_zip)
  then show ?thesis
    by (intro exI [of _ "n + i"]) auto
qed

lemma last_terminal_pair:
  assumes j: "j < length ks" and len: "length cs = length ks"
    and v: "cs ! j = Fulfilled v" "is_terminal v"
    and later: "\<forall>j'. j < j' \<and> j' < length ks \<and> ks ! j' = ks ! j \<longrightarrow>
        \<not> (\<exists>w. cs ! j' = Fulfilled w \<and> is_terminal w)"
  shows "map_of (rev (terminal_pairs ks cs)) (ks ! j) = Some v"
proof -
  let ?ys = "terminal_pairs (drop (Suc j) ks) (drop (Suc j) cs)"
  have eq: "terminal_pairs ks cs
      = terminal_pairs (take j ks) (take j cs) @ (ks ! j, v) # ?ys"
    unfolding terminal_pairs_def using pairs_split [OF j len, of kept] v by simp
  have "ks ! j \<notin> fst ` set ?ys"
  proof
    assume "ks ! j \<in> fst ` set ?ys"
    then obtain w where "(ks ! j, Fulfilled w) \<in> set (zip (drop (Suc j) ks) (drop (Suc j) cs))"
      "is_terminal w"
      by (auto simp: in_terminal_pairs)
    then obtain j' where "Suc j \<le> j'" "j' < length ks" "ks ! j' = ks ! j" "cs ! j' = Fulfilled w"
      by (auto dest!: in_zip_drop)
    with later \<open>is_terminal w\<close> show False
      by (metis Suc_le_lessD)
  qed
  then show ?thesis
    unfolding eq by (rule map_of_rev_last)
qed

lemma last_fulfilled_pair:
  assumes j: "j < length ks" and len: "length cs = length ks"
    and v: "cs ! j = Fulfilled v"
    and later: "\<forall>j'. j < j' \<and> j' < length ks \<and> ks ! j' = ks ! j \<longrightarrow>
        (\<exists>err. cs ! j' = Rejected err)"
  shows "map_of (rev (fulfilled_pairs ks cs)) (ks ! j) = Some v"
proof -
  let ?ys = "fulfilled_pairs (drop (Suc j) ks) (drop (Suc j) cs)"
  have eq: "fulfilled_pairs ks cs
      = fulfilled_pairs (take j ks) (take j cs) @ (ks ! j, v) # ?ys"
    unfolding fulfilled_pairs_def using pairs_split [OF j len, of fulfilled] v by simp
  have "ks ! j \<notin> fst ` set ?ys"
  proof
    assume "ks ! j \<in> fst ` set ?ys"
    then obtain w where "(ks ! j, Fulfilled w) \<in> set (zip (drop (Suc j) ks) (drop (Suc j) cs))"
      by (auto simp: in_fulfilled_pairs)
    then obtain j' where "Suc j \<le> j'" "j' < length ks" "ks ! j' = ks ! j" "cs ! j' = Fulfilled w"
      by (auto dest!: in_zip_drop)
    with later show False
      by (metis Suc_le_lessD outcome.distinct(1))
  qed
  then show ?thesis
    unfolding eq by (rule map_of_rev_last)
qed

lemma none_fulfilled_pair:
  assumes "\<forall>j<length ks. ks ! j = k \<longrightarrow> (\<exists>err. cs ! j = Rejected err)"
  shows "k \<notin> fst ` set (fulfilled_pairs ks cs)"
proof
  assume "k \<in> fst ` set (fulfilled_pairs ks cs)"
  then obtain v where "(k, Fulfilled v) \<in> set (zip ks cs)"
    by (auto simp: in_fulfilled_pairs)
  then obtain j where "j < length ks" "ks ! j = k" "cs ! j = Fulfilled v"
    by (auto simp: in_set_zip)
  with assms show False
    by (metis outcome.distinct(1))
qed

text \<open>A record in the map stays there, unchanged, to the end of the session.\<close>

lemma stored_ticked:
  assumes "map_of (results s) k = Some v"
  shows "map_of (results (ticked e ids s)) k = Some v"
proof -
  have "k \<notin> fst ` set (terminal_pairs (unresolved ids (results s))
      (allSettled e (fetches s) (unresolved ids (results s))))"
    using assms by (auto simp: has_def dest!: terminal_pairs_keys)
  with assms show ?thesis
    by (simp add: map_of_fold_update_other)
qed

lemma stored_thrown:
  "map_of (results s) k = Some v \<Longrightarrow> map_of (results (thrown e ids s n)) k = Some v"
proof -
  assume a: "map_of (results s) k = Some v"
  have "k \<notin> fst ` set (terminal_pairs (take n (unresolved ids (results s)))
      (take n (allSettled e (fetches s) (unresolved ids (results s)))))"
  proof
    assume "k \<in> fst ` set (terminal_pairs (take n (unresolved ids (results s)))
      (take n (allSettled e (fetches s) (unresolved ids (results s)))))"
    then obtain w c where "(k, c) \<in> set (zip (take n (unresolved ids (results s)))
      (take n (allSettled e (fetches s) (unresolved ids (results s)))))"
      by (auto simp: in_terminal_pairs)
    then have "k \<in> set (unresolved ids (results s))"
      by (auto dest: in_set_takeD set_zip_leftD)
    with a show False
      by (simp add: pending_iff has_def)
  qed
  with a show ?thesis
    by (simp add: map_of_fold_update_other)
qed

lemma stored_swept:
  assumes "map_of (results s) k = Some v"
  shows "map_of (results (swept e ids s)) k = Some v"
proof -
  have "k \<notin> fst ` set (fulfilled_pairs (unresolved ids (results s))
      (allSettled e (fetches s) (unresolved ids (results s))))"
    using assms by (auto simp: has_def dest!: fulfilled_pairs_keys)
  with assms show ?thesis
    by (simp add: map_of_fold_update_other)
qed

lemma stored_loop:
  assumes "pollLoop e d ids iv st = Some (r, st')" and "map_of (results st) k = Some v"
  shows "map_of (results st') k = Some v"
  using assms
proof (rule pollLoop_invariant)
  show "map_of (results (ticked e ids s)) k = Some v" if "map_of (results s) k = Some v" for s
    using that by (rule stored_ticked)
  show "map_of (results (thrown e ids s n)) k = Some v" if "map_of (results s) k = Some v" for s n
    using that by (rule stored_thrown)
qed simp_all

text \<open>
  A terminal record stored by a tick is the entry of its ID, at every position, in
  the list that the session returns.
\<close>

lemma stored_to_the_end:
  assumes head: "heads e (clock e 0 + tmo) ids iv s"
    and tick: "clock e (reads s) < clock e 0 + tmo" "unresolved ids (results s) \<noteq> []"
      "Fulfilled JNull \<notin> set (allSettled e (fetches s) (unresolved ids (results s)))"
    and stored: "map_of (results (ticked e ids s)) k = Some v" "is_terminal v"
    and run: "pollAgents e ids iv tmo = Some (Inr res, tr)"
    and i: "i < length ids" "ids ! i = k"
  shows "res ! i = v"
proof -
  let ?d = "clock e 0 + tmo"
  from pollAgents_cases [OF run] heads_loop [OF head] obtain st where
    loop: "pollLoop e ?d ids iv s = Some (None, st)"
    and res: "res = map (entry (results (swept e ids st))) ids"
    by auto
  have "pollLoop e ?d ids iv s =
     (if length (results (ticked e ids s)) = length ids then Some (None, ticked e ids s)
      else pollLoop e ?d ids iv (sleep iv (ticked e ids s)))"
    using tick by (rule pollLoop_tick)
  with loop have "st = ticked e ids s
      \<or> pollLoop e ?d ids iv (sleep iv (ticked e ids s)) = Some (None, st)"
    by (auto split: if_splits simp del: ticked_fields)
  then have "map_of (results st) k = Some v"
  proof
    assume "st = ticked e ids s"
    with stored(1) show ?thesis by simp
  next
    assume "pollLoop e ?d ids iv (sleep iv (ticked e ids s)) = Some (None, st)"
    then show ?thesis
      by (rule stored_loop) (simp only: sleep_fields stored(1))
  qed
  then have "map_of (results (swept e ids st)) k = Some v"
    by (rule stored_swept)
  with i stored(2) show ?thesis
    by (simp add: res entry_def is_terminal_truthy)
qed

section \<open>The records in the result of multi-job polling\<close>

text \<open>
  C1, as the claim states it, fails: the final sweep stores every fulfilled fetch,
  whatever its status. A job still running when the deadline has passed ends in the
  result with its \<^verbatim>\<open>RUNNING\<close> record, which is neither terminal nor the placeholder.
\<close>

theorem pollAgents_running_counterexample:
  "pollAgents running_env [''A''] 1000 0
     = Some (Inr [job ''A'' ''RUNNING''],
             [Fetched ''A'' (Fulfilled (job ''A'' ''RUNNING'')),
              Resolved ''A'' (job ''A'' ''RUNNING'')])
   \<and> \<not> is_terminal (job ''A'' ''RUNNING'')
   \<and> job ''A'' ''RUNNING'' \<noteq> placeholder ''A''"
  by code_simp

text \<open>
  C1, amended. Once the clock has reached the deadline at some reading, the loop of
  \<^verbatim>\<open>pollAgents\<close> ends, in a state \<open>st\<close>; it ends without throwing when no fetch yields
  \<^verbatim>\<open>null\<close>. Whenever it ends without throwing, \<^verbatim>\<open>pollAgents\<close> then performs exactly one
  sweep, which fetches the IDs still pending in \<open>st\<close> and stores every fulfilled fetch
  without looking at its status, and returns one record per requested ID:
  \<^item> for an ID in the map of \<open>st\<close>, the record the loop stored, which is terminal and
    was fetched for that ID;
  \<^item> for an ID still pending in \<open>st\<close>, the value of its last fulfilled fetch of the
    sweep when that value is truthy, whatever its status, and the placeholder when
    that value is falsy or when every fetch of the sweep for that ID was rejected.
\<close>

theorem pollAgents_records:
  assumes "0 < K" and "\<not> clock e K < clock e 0 + timeoutMs"
  shows "\<exists>r st. pollLoop e (clock e 0 + timeoutMs) ids intervalMs init_state = Some (r, st)
     \<and> ((\<forall>n k. getAgent e n k \<noteq> Fulfilled JNull) \<longrightarrow> r = None)
     \<and> (r = None \<longrightarrow>
          (\<exists>res. pollAgents e ids intervalMs timeoutMs =
                Some (Inr res,
                      trace st @ map2 Fetched (pending ids st) (checks e ids st)
                        @ map (\<lambda>(k, v). Resolved k v)
                            (fulfilled_pairs (pending ids st) (checks e ids st)))
           \<and> length res = length ids
           \<and> (\<forall>i<length ids.
                (has (results st) (ids ! i) \<longrightarrow>
                    map_of (results st) (ids ! i) = Some (res ! i) \<and> is_terminal (res ! i)
                  \<and> Fetched (ids ! i) (Fulfilled (res ! i)) \<in> set (trace st))
              \<and> (\<not> has (results st) (ids ! i) \<longrightarrow>
                    (\<forall>j v. j < length (pending ids st) \<and> pending ids st ! j = ids ! i
                        \<and> checks e ids st ! j = Fulfilled v
                        \<and> (\<forall>j'. j < j' \<and> j' < length (pending ids st)
                               \<and> pending ids st ! j' = ids ! i \<longrightarrow>
                               (\<exists>err. checks e ids st ! j' = Rejected err))
                      \<longrightarrow> res ! i = (if truthy v then v else placeholder (ids ! i)))
                  \<and> ((\<forall>j<length (pending ids st). pending ids st ! j = ids ! i \<longrightarrow>
                          (\<exists>err. checks e ids st ! j = Rejected err))
                      \<longrightarrow> res ! i = placeholder (ids ! i))))))"
proof -
  let ?d = "clock e 0 + timeoutMs"
  from assms obtain r st where
    loop: "pollLoop e ?d ids intervalMs init_state = Some (r, st)"
    using pollLoop_returns [of init_state K e ?d ids intervalMs] by auto
  have normal: "r = None" if "\<forall>n k. getAgent e n k \<noteq> Fulfilled JNull"
    using pollLoop_returns_nonnull [of init_state K e ?d ids intervalMs, OF _ assms(2) that]
      assms(1) loop by auto
  let ?U = "pending ids st"
  let ?cs = "checks e ids st"
  let ?fp = "fulfilled_pairs ?U ?cs"
  let ?res = "map (entry (results (swept e ids st))) ids"
  have sweep: "map_of (results (swept e ids st)) k =
      (case map_of (rev ?fp) k of None \<Rightarrow> map_of (results st) k | Some v \<Rightarrow> Some v)" for k
    by (simp add: map_of_fold_update)
  have "all_terminal init_state" "from_fetches init_state"
    by (simp_all add: all_terminal_def from_fetches_def)
  with loop have terminal: "all_terminal st" and fetched: "from_fetches st"
    by (auto intro: all_terminal_loop from_fetches_loop)
  have stored: "map_of (results st) (ids ! i) = Some (?res ! i) \<and> is_terminal (?res ! i)
      \<and> Fetched (ids ! i) (Fulfilled (?res ! i)) \<in> set (trace st)"
    if i: "i < length ids" and h: "has (results st) (ids ! i)" for i
  proof -
    from h obtain v where v: "map_of (results st) (ids ! i) = Some v"
      by (auto simp: has_def)
    with terminal fetched have tv: "is_terminal v"
      and fv: "Fetched (ids ! i) (Fulfilled v) \<in> set (trace st)"
      by (auto simp: all_terminal_def from_fetches_def)
    from v have "map_of (results (swept e ids st)) (ids ! i) = Some v"
      by (rule stored_swept)
    with i tv have "?res ! i = v"
      by (simp add: entry_def is_terminal_truthy)
    with v tv fv show ?thesis
      by simp
  qed
  have last: "?res ! i = (if truthy v then v else placeholder (ids ! i))"
    if i: "i < length ids" and j: "j < length ?U" "?U ! j = ids ! i" "?cs ! j = Fulfilled v"
      and later: "\<forall>j'. j < j' \<and> j' < length ?U \<and> ?U ! j' = ids ! i \<longrightarrow>
          (\<exists>err. ?cs ! j' = Rejected err)" for i j v
  proof -
    have "map_of (rev ?fp) (?U ! j) = Some v"
      using j later by (intro last_fulfilled_pair) simp_all
    then have "map_of (results (swept e ids st)) (ids ! i) = Some v"
      unfolding sweep j(2) by simp
    with i show ?thesis
      by (simp add: entry_def)
  qed
  have none: "?res ! i = placeholder (ids ! i)"
    if i: "i < length ids" and p: "\<not> has (results st) (ids ! i)"
      and rej: "\<forall>j<length ?U. ?U ! j = ids ! i \<longrightarrow> (\<exists>err. ?cs ! j = Rejected err)" for i
  proof -
    have "ids ! i \<notin> fst ` set ?fp"
      using rej by (rule none_fulfilled_pair)
    then have "map_of (rev ?fp) (ids ! i) = None"
      by (simp add: map_of_eq_None_iff)
    with p have "map_of (results (swept e ids st)) (ids ! i) = None"
      unfolding sweep by (simp add: has_def)
    with i show ?thesis
      by (simp add: entry_def)
  qed
  have run: "pollAgents e ids intervalMs timeoutMs =
      Some (Inr ?res, trace st @ map2 Fetched ?U ?cs @ map (\<lambda>(k, v). Resolved k v) ?fp)"
    if "r = None"
    using loop that by (simp add: pollAgents_of_loop)
  have each: "\<forall>i<length ids.
      (has (results st) (ids ! i) \<longrightarrow>
          map_of (results st) (ids ! i) = Some (?res ! i) \<and> is_terminal (?res ! i)
        \<and> Fetched (ids ! i) (Fulfilled (?res ! i)) \<in> set (trace st))
    \<and> (\<not> has (results st) (ids ! i) \<longrightarrow>
          (\<forall>j v. j < length ?U \<and> ?U ! j = ids ! i \<and> ?cs ! j = Fulfilled v
              \<and> (\<forall>j'. j < j' \<and> j' < length ?U \<and> ?U ! j' = ids ! i \<longrightarrow>
                     (\<exists>err. ?cs ! j' = Rejected err))
            \<longrightarrow> ?res ! i = (if truthy v then v else placeholder (ids ! i)))
        \<and> ((\<forall>j<length ?U. ?U ! j = ids ! i \<longrightarrow> (\<exists>err. ?cs ! j = Rejected err))
            \<longrightarrow> ?res ! i = placeholder (ids ! i)))"
    using stored last none by blast
  have len: "length ?res = length ids"
    by simp
  show ?thesis
    apply (rule exI [of _ r])
    apply (rule exI [of _ st])
    apply (intro conjI impI)
    apply (rule loop)
    apply (erule normal)
    apply (rule exI [of _ ?res])
    apply (intro conjI)
    apply (erule run)
    apply (rule len)
    apply (rule each)
    done
qed

theorem pollAgents_records_witness:
  "(0::nat) < 2
   \<and> \<not> clock slow_env 2 < clock slow_env 0 + 1500
   \<and> pollLoop slow_env (clock slow_env 0 + 1500) [''A'', ''B'', ''C''] 1000 init_state
       = Some (None, slow_state)
   \<and> pollAgents slow_env [''A'', ''B'', ''C''] 1000 1500 = Some (Inr slow_result, slow_trace)
   \<and> has (results slow_state) ''A'' \<and> is_terminal (slow_result ! 0)
   \<and> pending [''A'', ''B'', ''C''] slow_state = [''B'', ''C'']
   \<and> checks slow_env [''A'', ''B'', ''C''] slow_state
       = [Fulfilled (job ''B'' ''RUNNING''), Rejected (NetworkError ''Network error'')]
   \<and> slow_result ! 1 = job ''B'' ''RUNNING''
   \<and> slow_result ! 2 = placeholder ''C''"
proof -
  let ?ids = "[''A'', ''B'', ''C'']"
  have pos: "(0::nat) < 2"
    by simp
  have late: "\<not> clock slow_env 2 < clock slow_env 0 + 1500"
    by (simp add: slow_env_def)
  have loop: "pollLoop slow_env (clock slow_env 0 + 1500) ?ids 1000 init_state
      = Some (None, slow_state)"
    by code_simp
  have run: "pollAgents slow_env ?ids 1000 1500 = Some (Inr slow_result, slow_trace)"
    by code_simp
  have hasA: "has (results slow_state) ''A''"
    and notB: "\<not> has (results slow_state) ''B''"
    and notC: "\<not> has (results slow_state) ''C''"
    by (simp_all add: slow_state_def has_def)
  have pend: "pending ?ids slow_state = [''B'', ''C'']"
    by (simp add: slow_state_def unresolved_def has_def)
  have cs: "checks slow_env ?ids slow_state
      = [Fulfilled (job ''B'' ''RUNNING''), Rejected (NetworkError ''Network error'')]"
    unfolding pend by (simp add: slow_state_def slow_env_def)
  from pollAgents_records [of 2 slow_env 1500 ?ids 1000, OF pos late]
  obtain r st where
    l: "pollLoop slow_env (clock slow_env 0 + 1500) ?ids 1000 init_state = Some (r, st)"
    and p: "r = None \<longrightarrow>
          (\<exists>res. pollAgents slow_env ?ids 1000 1500 =
                Some (Inr res,
                      trace st @ map2 Fetched (pending ?ids st) (checks slow_env ?ids st)
                        @ map (\<lambda>(k, v). Resolved k v)
                            (fulfilled_pairs (pending ?ids st) (checks slow_env ?ids st)))
           \<and> length res = length ?ids
           \<and> (\<forall>i<length ?ids.
                (has (results st) (?ids ! i) \<longrightarrow>
                    map_of (results st) (?ids ! i) = Some (res ! i) \<and> is_terminal (res ! i)
                  \<and> Fetched (?ids ! i) (Fulfilled (res ! i)) \<in> set (trace st))
              \<and> (\<not> has (results st) (?ids ! i) \<longrightarrow>
                    (\<forall>j v. j < length (pending ?ids st) \<and> pending ?ids st ! j = ?ids ! i
                        \<and> checks slow_env ?ids st ! j = Fulfilled v
                        \<and> (\<forall>j'. j < j' \<and> j' < length (pending ?ids st)
                               \<and> pending ?ids st ! j' = ?ids ! i \<longrightarrow>
                               (\<exists>err. checks slow_env ?ids st ! j' = Rejected err))
                      \<longrightarrow> res ! i = (if truthy v then v else placeholder (?ids ! i)))
                  \<and> ((\<forall>j<length (pending ?ids st). pending ?ids st ! j = ?ids ! i \<longrightarrow>
                          (\<exists>err. checks slow_env ?ids st ! j = Rejected err))
                      \<longrightarrow> res ! i = placeholder (?ids ! i)))))"
    apply (elim exE conjE)
    apply (rule that)
    apply assumption
    apply assumption
    done
  from l loop have st: "r = None" "st = slow_state"
    by simp_all
  from p [THEN mp, OF st(1), unfolded st(2)] obtain res where
    r1: "pollAgents slow_env ?ids 1000 1500 =
                Some (Inr res,
                      trace slow_state @ map2 Fetched (pending ?ids slow_state) (checks slow_env ?ids slow_state)
                        @ map (\<lambda>(k, v). Resolved k v)
                            (fulfilled_pairs (pending ?ids slow_state) (checks slow_env ?ids slow_state)))"
    and each: "(\<forall>i<length ?ids.
                (has (results slow_state) (?ids ! i) \<longrightarrow>
                    map_of (results slow_state) (?ids ! i) = Some (res ! i) \<and> is_terminal (res ! i)
                  \<and> Fetched (?ids ! i) (Fulfilled (res ! i)) \<in> set (trace slow_state))
              \<and> (\<not> has (results slow_state) (?ids ! i) \<longrightarrow>
                    (\<forall>j v. j < length (pending ?ids slow_state) \<and> pending ?ids slow_state ! j = ?ids ! i
                        \<and> checks slow_env ?ids slow_state ! j = Fulfilled v
                        \<and> (\<forall>j'. j < j' \<and> j' < length (pending ?ids slow_state)
                               \<and> pending ?ids slow_state ! j' = ?ids ! i \<longrightarrow>
                               (\<exists>err. checks slow_env ?ids slow_state ! j' = Rejected err))
                      \<longrightarrow> res ! i = (if truthy v then v else placeholder (?ids ! i)))
                  \<and> ((\<forall>j<length (pending ?ids slow_state). pending ?ids slow_state ! j = ?ids ! i \<longrightarrow>
                          (\<exists>err. checks slow_env ?ids slow_state ! j = Rejected err))
                      \<longrightarrow> res ! i = placeholder (?ids ! i))))"
    apply (elim exE conjE)
    apply (rule that)
    apply assumption
    apply assumption
    done
  from r1 run have res: "res = slow_result"
    by simp
  have a: "is_terminal (slow_result ! 0)"
    using each [rule_format, of 0] hasA unfolding res by simp
  have b: "slow_result ! 1 = job ''B'' ''RUNNING''"
    using each [rule_format, of 1, THEN conjunct2, rule_format, THEN conjunct1, rule_format,
        of 0 "job ''B'' ''RUNNING''"] notB
    unfolding res pend cs by (simp add: job_def slow_env_def slow_state_def)
  have rejC: "\<forall>j<length (pending ?ids slow_state). pending ?ids slow_state ! j = ?ids ! 2 \<longrightarrow>
      (\<exists>err. checks slow_env ?ids slow_state ! j = Rejected err)"
    unfolding pend by (simp add: less_Suc_eq numeral_2_eq_2 slow_env_def)
  have notC': "\<not> has (results slow_state) (?ids ! 2)"
    using notC by simp
  have two: "2 < length ?ids"
    by simp
  have c: "slow_result ! 2 = placeholder ''C''"
    using each [THEN spec, THEN mp, OF two, THEN conjunct2, THEN mp, OF notC', THEN conjunct2,
        THEN mp, OF rejC]
    unfolding res by simp
  from pos late loop run hasA a pend cs b c show ?thesis
    by (intro conjI)
qed

section \<open>Rejected fetches\<close>

lemma tick_then_round:
  assumes head: "heads e (clock e 0 + tmo) ids iv s"
    and tick: "clock e (reads s) < clock e 0 + tmo"
      "Fulfilled JNull \<notin> set (allSettled e (fetches s) (unresolved ids (results s)))"
    and x: "x \<in> set (unresolved ids (results s))"
    and none: "\<forall>j<length (unresolved ids (results s)). unresolved ids (results s) ! j = x \<longrightarrow>
      \<not> (\<exists>w. allSettled e (fetches s) (unresolved ids (results s)) ! j = Fulfilled w
            \<and> is_terminal w)"
    and run: "pollAgents e ids iv tmo = Some (r, tr)"
  shows "\<exists>zs. tr = trace s @ map2 Fetched (pending ids s) (checks e ids s)
            @ map (\<lambda>(k, v). Resolved k v) (terminal_pairs (pending ids s) (checks e ids s))
            @ Slept iv # map2 Fetched (pending ids (sleep iv (ticked e ids s)))
                           (checks e ids (sleep iv (ticked e ids s))) @ zs"
proof -
  let ?s' = "sleep iv (ticked e ids s)"
  have "heads e (clock e 0 + tmo) ids iv ?s'"
    using head tick x none by (rule still_pending(2))
  from session_from_head [OF this run] obtain zs where
    "tr = trace ?s' @ map2 Fetched (pending ids ?s') (checks e ids ?s') @ zs"
    by blast
  moreover have "trace ?s' = trace s @ map2 Fetched (pending ids s) (checks e ids s)
      @ map (\<lambda>(k, v). Resolved k v) (terminal_pairs (pending ids s) (checks e ids s))
      @ [Slept iv]"
    by simp
  ultimately have "tr = trace s @ map2 Fetched (pending ids s) (checks e ids s)
      @ map (\<lambda>(k, v). Resolved k v) (terminal_pairs (pending ids s) (checks e ids s))
      @ Slept iv # map2 Fetched (pending ids ?s') (checks e ids ?s') @ zs"
    by (simp only: append_assoc append_Cons append_Nil)
  then show ?thesis ..
qed

lemma stored_by_tick:
  assumes j: "j < length (unresolved ids (results s))"
    and v: "allSettled e (fetches s) (unresolved ids (results s)) ! j = Fulfilled v"
      "is_terminal v"
    and later: "\<forall>j'. j < j' \<and> j' < length (unresolved ids (results s))
          \<and> unresolved ids (results s) ! j' = unresolved ids (results s) ! j \<longrightarrow>
        \<not> (\<exists>w. allSettled e (fetches s) (unresolved ids (results s)) ! j' = Fulfilled w
              \<and> is_terminal w)"
  shows "map_of (results (ticked e ids s)) (unresolved ids (results s) ! j) = Some v"
proof -
  have "map_of (rev (terminal_pairs (unresolved ids (results s))
      (allSettled e (fetches s) (unresolved ids (results s)))))
      (unresolved ids (results s) ! j) = Some v"
    using j v later by (intro last_terminal_pair) simp_all
  then show ?thesis
    by (simp add: map_of_fold_update)
qed

lemma never_fulfilled_placeholder:
  assumes run: "pollAgents e ids iv tmo = Some (Inr res, tr)"
    and i: "i < length ids"
    and rej: "\<forall>c. Fetched (ids ! i) c \<in> set tr \<longrightarrow> (\<exists>err. c = Rejected err)"
  shows "res ! i = placeholder (ids ! i)"
proof -
  from pollAgents_Inr [OF run] obtain st where
    loop: "pollLoop e (clock e 0 + tmo) ids iv init_state = Some (None, st)"
    and res: "res = map (entry (results (swept e ids st))) ids"
    and tr: "tr = trace (swept e ids st)"
    by blast
  have "from_fetches init_state"
    by (simp add: from_fetches_def)
  with loop have "from_fetches st"
    by (rule from_fetches_loop)
  then have inv: "from_fetches (swept e ids st)"
    by (rule from_fetches_swept)
  have "map_of (results (swept e ids st)) (ids ! i) = None"
  proof (cases "map_of (results (swept e ids st)) (ids ! i)")
    case None
    then show ?thesis .
  next
    case (Some v)
    with inv have "Fetched (ids ! i) (Fulfilled v) \<in> set tr"
      unfolding from_fetches_def tr by blast
    with rej show ?thesis
      by blast
  qed
  with i show ?thesis
    by (simp add: res entry_def)
qed



section \<open>Terminal and non-terminal statuses\<close>

lemma settled_ticked: "settled st k s \<Longrightarrow> settled st k (ticked e ids s)"
  unfolding settled_def by (auto simp: has_fold_update dest!: fetched_unresolved)

lemma settled_thrown: "settled st k s \<Longrightarrow> settled st k (thrown e ids s n)"
  unfolding settled_def by (auto simp: has_fold_update dest!: fetched_unresolved)

lemma settled_swept: "settled st k s \<Longrightarrow> settled st k (swept e ids s)"
  unfolding settled_def by (auto simp: has_fold_update dest!: fetched_unresolved)

lemma settled_loop:
  assumes "pollLoop e d ids iv st = Some (r, st')" and "has (results st) k"
  shows "settled st k st'"
  using assms(1)
proof (rule pollLoop_invariant)
  show "settled st k st"
    using assms(2) by (simp add: settled_def)
  show "settled st k (ticked e ids s)" if "settled st k s" for s
    using that by (rule settled_ticked)
  show "settled st k (thrown e ids s n)" if "settled st k s" for s n
    using that by (rule settled_thrown)
qed (auto simp: settled_def)

lemma is_terminal_iff:
  "is_terminal v \<longleftrightarrow>
     (\<exists>s. get_prop v ''status'' = Inr (Some (JStr s))
        \<and> (s = ''FINISHED'' \<or> s = ''STOPPED'' \<or> s = ''FAILED''))"
proof (cases "get_prop v ''status''")
  case (Inl err)
  then show ?thesis by (simp add: is_terminal_def)
next
  case (Inr x)
  then show ?thesis
    by (cases x rule: TERMINAL_STATUSES_has.cases)
      (auto simp: is_terminal_def TERMINAL_STATUSES_def)
qed

text \<open>
  A job that a tick has stored is not fetched again in the rest of the session,
  whether the session returns or throws.
\<close>

lemma stored_never_fetched_again:
  assumes head: "heads e (clock e 0 + tmo) ids iv s"
    and tick: "clock e (reads s) < clock e 0 + tmo" "unresolved ids (results s) \<noteq> []"
      "Fulfilled JNull \<notin> set (allSettled e (fetches s) (unresolved ids (results s)))"
    and stored: "has (results (ticked e ids s)) k"
    and run: "pollAgents e ids iv tmo = Some (r, tr)"
  shows "\<exists>zs. tr = trace s @ map2 Fetched (pending ids s) (checks e ids s) @ zs
     \<and> (\<forall>c. Fetched k c \<notin> set zs)"
proof -
  let ?d = "clock e 0 + tmo"
  let ?t = "ticked e ids s"
  let ?tp = "terminal_pairs (pending ids s) (checks e ids s)"
  from pollAgents_cases [OF run] heads_loop [OF head] obtain r' st where
    loop: "pollLoop e ?d ids iv s = Some (r', st)"
    and tr: "(\<exists>err. r' = Some err \<and> tr = trace st)
        \<or> r' = None \<and> tr = trace (swept e ids st)"
    by auto
  have step: "pollLoop e ?d ids iv s =
     (if length (results ?t) = length ids then Some (None, ?t)
      else pollLoop e ?d ids iv (sleep iv ?t))"
    using tick by (rule pollLoop_tick)
  have "settled ?t k st"
  proof (cases "length (results ?t) = length ids")
    case True
    with step loop have "st = ?t"
      by (simp del: ticked_fields)
    with stored show ?thesis
      by (simp add: settled_def del: ticked_fields)
  next
    case False
    with step loop have "pollLoop e ?d ids iv (sleep iv ?t) = Some (r', st)"
      by (simp del: ticked_fields)
    then have "settled (sleep iv ?t) k st"
      by (rule settled_loop) (simp only: sleep_fields stored)
    then show ?thesis
      unfolding settled_def by (auto simp del: ticked_fields)
  qed
  moreover from this have "settled ?t k (swept e ids st)"
    by (rule settled_swept)
  ultimately have "settled ?t k st \<and> settled ?t k (swept e ids st)"
    by blast
  with tr obtain evs where evs: "tr = trace ?t @ evs" "k \<notin> fetched_in evs"
    unfolding settled_def by auto
  have "tr = trace s @ map2 Fetched (pending ids s) (checks e ids s)
      @ (map (\<lambda>(k, v). Resolved k v) ?tp @ evs)"
    unfolding evs(1) by simp
  moreover have "\<forall>c. Fetched k c \<notin> set (map (\<lambda>(k, v). Resolved k v) ?tp @ evs)"
    using evs(2) by (auto simp: fetched_in_def)
  ultimately show ?thesis
    by blast
qed

lemma terminal_fetch_stored:
  assumes "j < length (unresolved ids (results s))"
    and "allSettled e (fetches s) (unresolved ids (results s)) ! j = Fulfilled w"
    and "is_terminal w"
  shows "has (results (ticked e ids s)) (unresolved ids (results s) ! j)"
proof -
  let ?U = "unresolved ids (results s)"
  let ?cs = "allSettled e (fetches s) ?U"
  from assms(1,2) have "(?U ! j, Fulfilled w) \<in> set (zip ?U ?cs)"
    by (auto simp: in_set_zip)
  with assms(3) have "(?U ! j, w) \<in> set (terminal_pairs ?U ?cs)"
    by (simp add: in_terminal_pairs)
  then have "?U ! j \<in> fst ` set (terminal_pairs ?U ?cs)"
    by force
  then show ?thesis
    by (simp add: has_fold_update)
qed



end
